theory Spec2Isabelle
  imports Complex_Main
begin

section \<open>Network Traffic Monitor (ntm.py)\<close>

text \<open>
  A shallow embedding of \<^verbatim>\<open>ntm.py\<close>. Python \<^verbatim>\<open>int\<close> is \<^typ>\<open>int\<close>. A Python
  \<^verbatim>\<open>float\<close> is read as the real number it denotes, so \<^typ>\<open>real\<close> stands for the
  finite floats. The arithmetic is the exact one, except in \<^verbatim>\<open>AnsiRenderer._bar\<close>,
  where the rounding of the quotient and of the product to a double is modelled
  because \<^verbatim>\<open>int\<close> is applied to the result; infinities and NaN are outside the
  model. The two things the program reads from its environment, the clock
  (\<^verbatim>\<open>time.time()\<close>) and the per-interface counters
  (\<^verbatim>\<open>psutil.net_io_counters(pernic=True)\<close>), are arguments of the functions that
  read them. Every exception the modelled code can raise is a value of \<open>error\<close>.
\<close>

subsection \<open>Exceptions and Python built-ins\<close>

datatype error =
    RuntimeError
  | ValueError
  | KeyError
  | ZeroDivisionError
  | IndexError
  | SystemExit int

text \<open>\<^verbatim>\<open>max(a, b)\<close> keeps \<open>a\<close> unless \<open>b > a\<close>; \<^verbatim>\<open>min(a, b)\<close> keeps \<open>a\<close>
  unless \<open>b < a\<close>.\<close>

definition py_max :: "real \<Rightarrow> real \<Rightarrow> real" where
  "py_max a b = (if a < b then b else a)"

definition py_min :: "real \<Rightarrow> real \<Rightarrow> real" where
  "py_min a b = (if b < a then b else a)"

text \<open>\<^verbatim>\<open>a / b\<close> on numbers raises \<^verbatim>\<open>ZeroDivisionError\<close> when \<open>b\<close> is zero.\<close>

definition truediv :: "real \<Rightarrow> real \<Rightarrow> error + real" where
  "truediv a b = (if b = 0 then Inl ZeroDivisionError else Inr (a / b))"

text \<open>\<^verbatim>\<open>int(x)\<close> on a float drops the fractional part (rounds toward zero).\<close>

definition py_int :: "real \<Rightarrow> int" where
  "py_int x = (if 0 \<le> x then \<lfloor>x\<rfloor> else \<lceil>x\<rceil>)"

text \<open>\<^verbatim>\<open>s * n\<close> on a string repeats it \<open>n\<close> times and is empty for \<open>n \<le> 0\<close>.\<close>

definition str_mul :: "'a list \<Rightarrow> int \<Rightarrow> 'a list" where
  "str_mul s n = concat (replicate (nat n) s)"

subsection \<open>Formatting with \<^verbatim>\<open>.1f\<close>\<close>

text \<open>
  \<^verbatim>\<open>f"{value:.1f}"\<close> prints the decimal with one fractional digit nearest to the
  exact value of the number, a tie going to the even digit, with a minus sign for a
  negative number (also when the digits are \<^verbatim>\<open>0.0\<close>).
\<close>

definition digit_char :: "nat \<Rightarrow> char" where
  "digit_char d = ''0123456789'' ! d"

function str_nat :: "nat \<Rightarrow> string" where
  "str_nat n = (if n < 10 then [digit_char n] else str_nat (n div 10) @ [digit_char (n mod 10)])"
  by pat_completeness auto
termination
  by (relation "measure (\<lambda>n. n)") auto

declare str_nat.simps [simp del]

definition round_half_even :: "real \<Rightarrow> int" where
  "round_half_even y =
     (let f = \<lfloor>y\<rfloor>; d = y - of_int f
      in if d < 1 / 2 then f
         else if 1 / 2 < d then f + 1
         else if even f then f else f + 1)"

definition format_1f :: "real \<Rightarrow> string" where
  "format_1f value =
     (let r = nat (round_half_even (\<bar>value\<bar> * 10))
      in (if value < 0 then ''-'' else '''') @ str_nat (r div 10) @ ''.'' @ [digit_char (r mod 10)])"

subsection \<open>Rounding to a double\<close>

text \<open>
  A division or multiplication of floats returns the double nearest to the exact
  result, a tie going to the even significand. \<open>float_round\<close> rounds a real to 53
  significant bits in this way. The exponent is not bounded: overflow to infinity and
  the coarser spacing of the subnormal doubles are outside the model.

  \<open>expo x\<close> is the exponent \<open>e\<close> of a positive \<open>x\<close>, with \<open>2^e \<le> x < 2^(e+1)\<close>,
  found by halving (\<open>exp_hi\<close>) or doubling (\<open>exp_lo\<close>); \<open>pow2 e\<close> is \<open>2^e\<close>.
\<close>

function exp_hi :: "real \<Rightarrow> int" where
  "exp_hi x = (if 2 \<le> x then exp_hi (x / 2) + 1 else 0)"
  by pat_completeness auto
termination
proof (relation "measure (\<lambda>x. nat \<lfloor>x\<rfloor>)")
  show "wf (measure (\<lambda>x::real. nat \<lfloor>x\<rfloor>))" by simp
next
  fix x :: real assume "2 \<le> x"
  then have "\<lfloor>x / 2\<rfloor> < \<lfloor>x\<rfloor>" and "0 < \<lfloor>x\<rfloor>" by linarith+
  then show "(x / 2, x) \<in> measure (\<lambda>x. nat \<lfloor>x\<rfloor>)" by simp
qed

function exp_lo :: "real \<Rightarrow> int" where
  "exp_lo x = (if 0 < x \<and> x < 1 then exp_lo (2 * x) - 1 else 0)"
  by pat_completeness auto
termination
proof (relation "measure (\<lambda>x. nat \<lceil>1 / x\<rceil>)")
  show "wf (measure (\<lambda>x::real. nat \<lceil>1 / x\<rceil>))" by simp
next
  have half: "\<lceil>y / 2\<rceil> < \<lceil>y\<rceil>" if "1 < y" for y :: real
  proof -
    from that have "1 < \<lceil>y\<rceil>" by (simp add: less_ceiling_iff)
    then have "(2::real) \<le> of_int \<lceil>y\<rceil>" by linarith
    moreover have "y \<le> of_int \<lceil>y\<rceil>" by (rule le_of_int_ceiling)
    ultimately have "y / 2 \<le> of_int \<lceil>y\<rceil> - 1" by linarith
    then have "y / 2 \<le> of_int (\<lceil>y\<rceil> - 1)" by (simp only: of_int_diff of_int_1)
    then have "\<lceil>y / 2\<rceil> \<le> \<lceil>y\<rceil> - 1" by (rule ceiling_le)
    then show ?thesis by linarith
  qed
  fix x :: real assume a: "0 < x \<and> x < 1"
  then have y: "1 < 1 / x" by simp
  have "1 / (2 * x) = 1 / x / 2" by simp
  with half [OF y] have "\<lceil>1 / (2 * x)\<rceil> < \<lceil>1 / x\<rceil>" by (simp only:)
  moreover from y have "(0::int) < \<lceil>1 / x\<rceil>" by (simp only: less_ceiling_iff)
  ultimately show "(2 * x, x) \<in> measure (\<lambda>x. nat \<lceil>1 / x\<rceil>)"
    by (simp only: in_measure nat_less_eq_zless)
qed

declare exp_hi.simps [simp del]

declare exp_lo.simps [simp del]

definition expo :: "real \<Rightarrow> int" where
  "expo x = (if 1 \<le> x then exp_hi x else exp_lo x)"

definition pow2 :: "int \<Rightarrow> real" where
  "pow2 e = (if 0 \<le> e then 2 ^ nat e else 1 / 2 ^ nat (- e))"

definition float_round :: "real \<Rightarrow> real" where
  "float_round x =
     (if x = 0 then 0
      else let ulp = pow2 (expo \<bar>x\<bar> - 52)
           in sgn x * of_int (round_half_even (\<bar>x\<bar> / ulp)) * ulp)"

text \<open>
  The rounded operations, used where the result goes through \<^verbatim>\<open>int\<close>, which is not
  continuous, so that the last bit of the double decides the result.
\<close>

definition float_truediv :: "real \<Rightarrow> real \<Rightarrow> error + real" where
  "float_truediv a b = (if b = 0 then Inl ZeroDivisionError else Inr (float_round (a / b)))"

definition float_mul :: "real \<Rightarrow> real \<Rightarrow> real" where
  "float_mul a b = float_round (a * b)"

subsection \<open>\<^verbatim>\<open>humanize_bytes\<close>\<close>

definition units :: "string list" where
  "units = [''B'', ''KB'', ''MB'', ''GB'', ''TB'']"

text \<open>The \<^verbatim>\<open>while\<close> loop of \<^verbatim>\<open>humanize_bytes\<close>, on the pair \<open>(value, idx)\<close>.\<close>

function humanize_loop :: "real \<Rightarrow> nat \<Rightarrow> real \<times> nat" where
  "humanize_loop value idx =
     (if value \<ge> 1024 \<and> int idx < int (length units) - 1
      then humanize_loop (value / 1024) (idx + 1)
      else (value, idx))"
  by pat_completeness auto
termination
  by (relation "measure (\<lambda>(value, idx). length units - idx)") auto

declare humanize_loop.simps [simp del]

definition humanize_bytes :: "real \<Rightarrow> bool \<Rightarrow> error + string" where
  "humanize_bytes value rate =
     (case humanize_loop value 0 of (value', idx) \<Rightarrow>
        let suffix = (if rate then ''/s'' else '''')
        in if idx < length units
           then Inr (format_1f value' @ '' '' @ units ! idx @ suffix)
           else Inl IndexError)"

subsection \<open>The collector\<close>

text \<open>
  One entry of the dictionary \<^verbatim>\<open>psutil.net_io_counters(pernic=True)\<close> returns: the
  two fields the program reads. The dictionary is an association list from interface
  names, looked up with \<^const>\<open>map_of\<close>.
\<close>

record snetio =
  bytes_sent :: int
  bytes_recv :: int

type_synonym snapshot = "(string \<times> snetio) list"

text \<open>The dictionary \<^verbatim>\<open>{"sent": ..., "recv": ...}\<close> of \<^verbatim>\<open>_read_counters\<close>.\<close>

record counters =
  sent :: int
  recv :: int

record collector =
  iface :: string
  use_ema :: bool
  alpha :: real
  start_time :: real
  last_time :: real
  start_counters :: counters
  prev_counters :: counters
  sent_ema :: real
  recv_ema :: real
  ema_initialized :: bool

text \<open>The dictionary \<^verbatim>\<open>sample\<close> returns; its key \<^verbatim>\<open>"iface"\<close> is the field
  \<open>sample_iface\<close>, the others keep their names.\<close>

record sample_dict =
  sample_iface :: string
  interval :: real
  sent_Bps :: real
  recv_Bps :: real
  sent_ema_Bps :: real
  recv_ema_Bps :: real
  ema_enabled :: bool
  ema_alpha :: real
  total_sent_B :: int
  total_recv_B :: int
  uptime :: real
  timestamp :: real

definition read_counters :: "string \<Rightarrow> snapshot \<Rightarrow> error + counters" where
  "read_counters ifc cs =
     (if ifc = ''all''
      then Inr \<lparr>sent = sum_list (map (\<lambda>(n, c). bytes_sent c) cs),
                recv = sum_list (map (\<lambda>(n, c). bytes_recv c) cs)\<rparr>
      else case map_of cs ifc of
             None \<Rightarrow> Inl ValueError
           | Some c \<Rightarrow> Inr \<lparr>sent = bytes_sent c, recv = bytes_recv c\<rparr>)"

text \<open>
  \<^verbatim>\<open>TrafficCollector.__init__\<close> queries the counters twice: once itself, to see
  whether there is any interface (\<open>cs0\<close>), and once in \<^verbatim>\<open>_read_counters\<close>
  (\<open>cs1\<close>); \<open>now\<close> is what \<^verbatim>\<open>time.time()\<close> returns.
\<close>

definition init :: "string \<Rightarrow> bool \<Rightarrow> real \<Rightarrow> snapshot \<Rightarrow> real \<Rightarrow> snapshot \<Rightarrow> error + collector" where
  "init ifc ema a cs0 now cs1 =
     (if cs0 = [] then Inl RuntimeError
      else case read_counters ifc cs1 of
             Inl e \<Rightarrow> Inl e
           | Inr c \<Rightarrow>
               Inr \<lparr>iface = ifc, use_ema = ema, alpha = a,
                    start_time = now, last_time = now,
                    start_counters = c, prev_counters = c,
                    sent_ema = 0, recv_ema = 0, ema_initialized = False\<rparr>)"

text \<open>The update of \<open>sent_ema\<close> and \<open>recv_ema\<close> (the \<^verbatim>\<open>if self.use_ema\<close> block).\<close>

definition update_ema :: "collector \<Rightarrow> real \<Rightarrow> real \<Rightarrow> collector" where
  "update_ema self sent_rate recv_rate =
     (if use_ema self then
        (if \<not> ema_initialized self
         then self\<lparr>sent_ema := sent_rate, recv_ema := recv_rate, ema_initialized := True\<rparr>
         else self\<lparr>sent_ema := alpha self * sent_rate + (1 - alpha self) * sent_ema self,
                   recv_ema := alpha self * recv_rate + (1 - alpha self) * recv_ema self\<rparr>)
      else self\<lparr>sent_ema := sent_rate, recv_ema := recv_rate\<rparr>)"

text \<open>
  \<^verbatim>\<open>TrafficCollector.sample\<close>: \<open>now\<close> is the clock reading and \<open>cs\<close> the counters
  of this call. The result is the exception raised, or the collector after the call
  with the dictionary returned. A \<^verbatim>\<open>ValueError\<close> or \<^verbatim>\<open>KeyError\<close> of the read
  becomes \<^verbatim>\<open>sys.exit(1)\<close>.
\<close>

definition sample :: "collector \<Rightarrow> real \<Rightarrow> snapshot \<Rightarrow> error + (collector \<times> sample_dict)" where
  "sample self now cs =
     (let interval = py_max (now - last_time self) (1 / 100) in
      case read_counters (iface self) cs of
        Inl ValueError \<Rightarrow> Inl (SystemExit 1)
      | Inl KeyError \<Rightarrow> Inl (SystemExit 1)
      | Inl e \<Rightarrow> Inl e
      | Inr current \<Rightarrow>
         (case truediv (of_int (sent current - sent (prev_counters self))) interval of
            Inl e \<Rightarrow> Inl e
          | Inr sent_rate \<Rightarrow>
             (case truediv (of_int (recv current - recv (prev_counters self))) interval of
                Inl e \<Rightarrow> Inl e
              | Inr recv_rate \<Rightarrow>
                 let self1 = update_ema self sent_rate recv_rate;
                     total_sent = sent current - sent (start_counters self1);
                     total_recv = recv current - recv (start_counters self1);
                     self2 = self1\<lparr>prev_counters := current, last_time := now\<rparr>
                 in Inr (self2,
                      \<lparr>sample_iface = iface self2,
                       interval = interval,
                       sent_Bps = sent_rate,
                       recv_Bps = recv_rate,
                       sent_ema_Bps = sent_ema self2,
                       recv_ema_Bps = recv_ema self2,
                       ema_enabled = use_ema self2,
                       ema_alpha = alpha self2,
                       total_sent_B = total_sent,
                       total_recv_B = total_recv,
                       uptime = now - start_time self2,
                       timestamp = now\<rparr>))))"

text \<open>
  Successive calls of \<^verbatim>\<open>sample\<close> on one collector, one per element of the list of
  clock readings and counters. The result lists, for each call, the collector after it
  and the dictionary it returned; the first exception ends the run.
\<close>

fun samples :: "collector \<Rightarrow> (real \<times> snapshot) list \<Rightarrow> error + (collector \<times> sample_dict) list" where
  "samples self [] = Inr []"
| "samples self ((now, cs) # rest) =
     (case sample self now cs of
        Inl e \<Rightarrow> Inl e
      | Inr (self', d) \<Rightarrow>
         (case samples self' rest of
            Inl e \<Rightarrow> Inl e
          | Inr out \<Rightarrow> Inr ((self', d) # out)))"

subsection \<open>The loop of \<^verbatim>\<open>main\<close>\<close>

text \<open>
  How the loop of \<^verbatim>\<open>main\<close> ends: the iteration bound is reached (\<^verbatim>\<open>break\<close>), the
  user interrupts it (\<^verbatim>\<open>KeyboardInterrupt\<close>, caught), or an exception leaves
  \<^verbatim>\<open>main\<close>.
\<close>

datatype outcome = Finished | Stopped | Raised error

text \<open>
  The \<^verbatim>\<open>while True\<close> loop. The list holds the clock reading and the counters of each
  tick the environment lets happen; when it is used up the user has interrupted the
  loop. The result is the list of dictionaries handed to \<^verbatim>\<open>renderer.render\<close> and
  how the loop ended.
\<close>

fun main_loop :: "collector \<Rightarrow> int option \<Rightarrow> int \<Rightarrow> (real \<times> snapshot) list \<Rightarrow> sample_dict list \<times> outcome" where
  "main_loop collector iterations i [] = ([], Stopped)"
| "main_loop collector iterations i ((now, cs) # rest) =
     (case sample collector now cs of
        Inl e \<Rightarrow> ([], Raised e)
      | Inr (collector', data) \<Rightarrow>
         (let i' = i + 1 in
          if (case iterations of None \<Rightarrow> False | Some n \<Rightarrow> i' \<ge> n)
          then ([data], Finished)
          else (case main_loop collector' iterations i' rest of
                  (ds, out) \<Rightarrow> (data # ds, out))))"

text \<open>
  \<^verbatim>\<open>main\<close>, from the parsed arguments on, as far as the collector is concerned:
  the check of \<^verbatim>\<open>--ema-alpha\<close>, the construction of the collector and the loop. The
  arguments are \<^verbatim>\<open>--iface\<close>, \<^verbatim>\<open>--no-ema\<close>, \<^verbatim>\<open>--ema-alpha\<close>, \<^verbatim>\<open>--once\<close> and
  \<^verbatim>\<open>--count\<close>; \<open>cs0\<close>, \<open>now0\<close> and \<open>cs1\<close> are what the constructor reads and
  \<open>ticks\<close> what the loop reads. No exception raised here is caught, so it ends the
  program.
\<close>

definition main :: "string \<Rightarrow> bool \<Rightarrow> real \<Rightarrow> bool \<Rightarrow> int option \<Rightarrow>
    snapshot \<Rightarrow> real \<Rightarrow> snapshot \<Rightarrow> (real \<times> snapshot) list \<Rightarrow> sample_dict list \<times> outcome" where
  "main arg_iface no_ema arg_ema_alpha once count cs0 now0 cs1 ticks =
     (let ema = \<not> no_ema in
      if \<not> (0 < arg_ema_alpha \<and> arg_ema_alpha \<le> 1) then ([], Raised (SystemExit 1))
      else case init arg_iface ema arg_ema_alpha cs0 now0 cs1 of
             Inl e \<Rightarrow> ([], Raised e)
           | Inr collector \<Rightarrow>
               (let iterations = (if once then Some 1 else count)
                in main_loop collector iterations 0 ticks))"

subsection \<open>\<^verbatim>\<open>AnsiRenderer\<close>\<close>

record ansi_renderer =
  view :: string
  max_sent :: real
  max_recv :: real
  bar_width :: int

definition ansi_init :: "string \<Rightarrow> ansi_renderer" where
  "ansi_init v = \<lparr>view = v, max_sent = 1, max_recv = 1, bar_width = 50\<rparr>"

text \<open>A string of the bar is a list of code points: \<^verbatim>\<open>U+2588\<close> (full block) and
  the space.\<close>

definition full_block :: nat where
  "full_block = 9608"

definition space :: nat where
  "space = 32"

text \<open>The local \<^verbatim>\<open>ratio\<close> and \<^verbatim>\<open>filled\<close> of \<^verbatim>\<open>_bar\<close>, and \<^verbatim>\<open>_bar\<close> itself. The
  quotient and the product are the rounded ones: \<^verbatim>\<open>int\<close> of the product depends on
  its last bit.\<close>

definition bar_ratio :: "real \<Rightarrow> real \<Rightarrow> error + real" where
  "bar_ratio value max_value =
     (case float_truediv value max_value of
        Inl e \<Rightarrow> Inl e
      | Inr q \<Rightarrow> Inr (py_min q 1))"

definition bar_filled :: "ansi_renderer \<Rightarrow> real \<Rightarrow> real \<Rightarrow> error + int" where
  "bar_filled self value max_value =
     (case bar_ratio value max_value of
        Inl e \<Rightarrow> Inl e
      | Inr ratio \<Rightarrow> Inr (py_int (float_mul ratio (of_int (bar_width self)))))"

definition bar :: "ansi_renderer \<Rightarrow> real \<Rightarrow> real \<Rightarrow> error + nat list" where
  "bar self value max_value =
     (case bar_filled self value max_value of
        Inl e \<Rightarrow> Inl e
      | Inr filled \<Rightarrow>
          Inr (str_mul [full_block] filled @ str_mul [space] (bar_width self - filled)))"

text \<open>The values that drive the bars (\<^verbatim>\<open>bar_sent, bar_recv\<close> of \<^verbatim>\<open>render\<close>).\<close>

definition bar_metrics :: "ansi_renderer \<Rightarrow> sample_dict \<Rightarrow> real \<times> real" where
  "bar_metrics self d =
     (if view self = ''raw'' then (sent_Bps d, recv_Bps d)
      else (sent_ema_Bps d, recv_ema_Bps d))"

text \<open>
  \<^verbatim>\<open>AnsiRenderer.render\<close>, as far as it reads or writes the renderer: the update of
  \<open>max_sent\<close> and \<open>max_recv\<close> and the two bars it prints. The remaining lines it
  prints are text built from the dictionary and the wall clock alone.
\<close>

definition render :: "ansi_renderer \<Rightarrow> sample_dict \<Rightarrow> error + (ansi_renderer \<times> nat list \<times> nat list)" where
  "render self d =
     (case bar_metrics self d of (bar_sent, bar_recv) \<Rightarrow>
        let self' = self\<lparr>max_sent := py_max (max_sent self) bar_sent,
                         max_recv := py_max (max_recv self) bar_recv\<rparr>
        in (case bar self' bar_sent (max_sent self') of
              Inl e \<Rightarrow> Inl e
            | Inr out_bar \<Rightarrow>
               (case bar self' bar_recv (max_recv self') of
                  Inl e \<Rightarrow> Inl e
                | Inr in_bar \<Rightarrow> Inr (self', out_bar, in_bar))))"

text \<open>Successive calls of \<^verbatim>\<open>render\<close>: for each call, the renderer after it and the
  two bars it printed.\<close>

fun renders :: "ansi_renderer \<Rightarrow> sample_dict list \<Rightarrow> error + (ansi_renderer \<times> nat list \<times> nat list) list" where
  "renders self [] = Inr []"
| "renders self (d # ds) =
     (case render self d of
        Inl e \<Rightarrow> Inl e
      | Inr (self', out_bar, in_bar) \<Rightarrow>
         (case renders self' ds of
            Inl e \<Rightarrow> Inl e
          | Inr rs \<Rightarrow> Inr ((self', out_bar, in_bar) # rs)))"

subsection \<open>A snapshot for examples\<close>

text \<open>The counters of a host whose only interface is \<^verbatim>\<open>eth0\<close>.\<close>

abbreviation eth0 :: "int \<Rightarrow> int \<Rightarrow> snapshot" where
  "eth0 s r \<equiv> [(''eth0'', \<lparr>bytes_sent = s, bytes_recv = r\<rparr>)]"

text \<open>A dictionary of \<^verbatim>\<open>sample\<close> whose four rates are all \<open>v\<close>.\<close>

abbreviation rates :: "real \<Rightarrow> sample_dict" where
  "rates v \<equiv> \<lparr>sample_iface = ''eth0'', interval = 1, sent_Bps = v, recv_Bps = v,
     sent_ema_Bps = v, recv_ema_Bps = v, ema_enabled = True, ema_alpha = 1 / 5,
     total_sent_B = 0, total_recv_B = 0, uptime = 0, timestamp = 0\<rparr>"

section \<open>Properties\<close>

subsection \<open>Auxiliary facts\<close>

lemma py_max_eq: "py_max a b = max a b"
  by (simp add: py_max_def max_def)

lemma py_min_eq: "py_min a b = min a b"
  by (simp add: py_min_def min_def)

lemma read_counters_error: "read_counters ifc cs = Inl e \<Longrightarrow> e = ValueError"
  by (auto simp: read_counters_def split: if_splits option.splits)

lemma sample_lost:
  "read_counters (iface self) cs = Inl e \<Longrightarrow> sample self now cs = Inl (SystemExit 1)"
  by (frule read_counters_error) (simp add: sample_def)

lemma sample_read:
  assumes "read_counters (iface self) cs = Inr current"
  shows "sample self now cs =
     Inr (let iv = max (now - last_time self) (1 / 100);
              sent_rate = of_int (sent current - sent (prev_counters self)) / iv;
              recv_rate = of_int (recv current - recv (prev_counters self)) / iv;
              self1 = update_ema self sent_rate recv_rate;
              self2 = self1\<lparr>prev_counters := current, last_time := now\<rparr>
          in (self2,
              \<lparr>sample_iface = iface self,
               interval = iv,
               sent_Bps = sent_rate,
               recv_Bps = recv_rate,
               sent_ema_Bps = sent_ema self1,
               recv_ema_Bps = recv_ema self1,
               ema_enabled = use_ema self,
               ema_alpha = alpha self,
               total_sent_B = sent current - sent (start_counters self),
               total_recv_B = recv current - recv (start_counters self),
               uptime = now - start_time self,
               timestamp = now\<rparr>))"
proof -
  have "max (now - last_time self) (1 / 100) \<noteq> 0"
    by (simp add: max_def)
  then show ?thesis
    using assms by (simp add: sample_def truediv_def py_max_eq Let_def update_ema_def)
qed

lemma sample_InrD:
  assumes "sample self now cs = Inr (self', d)"
  obtains current where "read_counters (iface self) cs = Inr current"
proof (cases "read_counters (iface self) cs")
  case (Inl e)
  then show ?thesis using assms sample_lost by fastforce
next
  case (Inr current)
  then show ?thesis using that by blast
qed

lemma samples_length: "samples self inputs = Inr out \<Longrightarrow> length out = length inputs"
  by (induction inputs arbitrary: self out) (auto split: sum.splits prod.splits)

lemma sample_step:
  assumes "sample self now cs = Inr (self', d)"
  shows "\<exists>current. read_counters (iface self) cs = Inr current
      \<and> self' = (update_ema self (sent_Bps d) (recv_Bps d))\<lparr>prev_counters := current, last_time := now\<rparr>
      \<and> interval d = max (now - last_time self) (1 / 100)
      \<and> sent_Bps d = of_int (sent current - sent (prev_counters self)) / interval d
      \<and> recv_Bps d = of_int (recv current - recv (prev_counters self)) / interval d
      \<and> sent_ema_Bps d = sent_ema self'
      \<and> recv_ema_Bps d = recv_ema self'
      \<and> total_sent_B d = sent current - sent (start_counters self)
      \<and> total_recv_B d = recv current - recv (start_counters self)"
proof -
  from assms obtain current where r: "read_counters (iface self) cs = Inr current"
    by (rule sample_InrD)
  from sample_read [OF r, of now] assms show ?thesis
    using r by (auto simp: Let_def)
qed

lemma update_ema_frame:
  "iface (update_ema self s r) = iface self"
  "use_ema (update_ema self s r) = use_ema self"
  "alpha (update_ema self s r) = alpha self"
  "start_time (update_ema self s r) = start_time self"
  "start_counters (update_ema self s r) = start_counters self"
  by (simp_all add: update_ema_def)

lemma sample_keeps:
  assumes "sample self now cs = Inr (self', d)"
  shows "iface self' = iface self \<and> use_ema self' = use_ema self \<and> alpha self' = alpha self
       \<and> start_time self' = start_time self \<and> start_counters self' = start_counters self"
  using sample_step [OF assms] by (auto simp: update_ema_frame)

lemma samples_keeps:
  "samples self inputs = Inr out \<Longrightarrow> (c, d) \<in> set out \<Longrightarrow>
     iface c = iface self \<and> use_ema c = use_ema self \<and> alpha c = alpha self
       \<and> start_time c = start_time self \<and> start_counters c = start_counters self"
proof (induction inputs arbitrary: self out)
  case Nil
  then show ?case by simp
next
  case (Cons x inputs)
  obtain now cs where x: "x = (now, cs)" by (cases x)
  from Cons.prems(1) x obtain self' d' out' where
    s: "sample self now cs = Inr (self', d')" and
    r: "samples self' inputs = Inr out'" and
    o: "out = (self', d') # out'"
    by (auto split: sum.splits prod.splits)
  from Cons.prems(2) o consider "(c, d) = (self', d')" | "(c, d) \<in> set out'" by auto
  then show ?case
  proof cases
    case 1
    then show ?thesis using sample_keeps [OF s] by simp
  next
    case 2
    from Cons.IH [OF r 2] sample_keeps [OF s] show ?thesis by simp
  qed
qed

lemma samples_nth:
  "samples self inputs = Inr out \<Longrightarrow> i < length inputs \<Longrightarrow>
     sample (if i = 0 then self else fst (out ! (i - 1))) (fst (inputs ! i)) (snd (inputs ! i))
       = Inr (out ! i)"
proof (induction inputs arbitrary: self out i)
  case Nil
  then show ?case by simp
next
  case (Cons x inputs)
  obtain now cs where x: "x = (now, cs)" by (cases x)
  from Cons.prems(1) x obtain self' d' out' where
    s: "sample self now cs = Inr (self', d')" and
    r: "samples self' inputs = Inr out'" and
    o: "out = (self', d') # out'"
    by (auto split: sum.splits prod.splits)
  show ?case
  proof (cases i)
    case 0
    then show ?thesis using s o x by simp
  next
    case (Suc j)
    with Cons.prems(2) have j: "j < length inputs" by simp
    from Cons.IH [OF r j] show ?thesis
      using Suc o by (cases j) simp_all
  qed
qed

lemma eval_read_eth0:
  "read_counters ''eth0'' [(''eth0'', \<lparr>bytes_sent = s, bytes_recv = r\<rparr>)] = Inr \<lparr>sent = s, recv = r\<rparr>"
  by (simp add: read_counters_def)

lemma init_eth0:
  "init ''eth0'' ema a (eth0 s0 r0) t (eth0 s r) =
     Inr \<lparr>iface = ''eth0'', use_ema = ema, alpha = a, start_time = t, last_time = t,
          start_counters = \<lparr>sent = s, recv = r\<rparr>, prev_counters = \<lparr>sent = s, recv = r\<rparr>,
          sent_ema = 0, recv_ema = 0, ema_initialized = False\<rparr>"
  by (simp add: init_def eval_read_eth0)

lemma sample_eth0:
  assumes "iface self = ''eth0''"
  shows "sample self now (eth0 s r) =
     Inr (let iv = max (now - last_time self) (1 / 100);
              sent_rate = of_int (s - sent (prev_counters self)) / iv;
              recv_rate = of_int (r - recv (prev_counters self)) / iv;
              self1 = update_ema self sent_rate recv_rate;
              self2 = self1\<lparr>prev_counters := \<lparr>sent = s, recv = r\<rparr>, last_time := now\<rparr>
          in (self2,
              \<lparr>sample_iface = iface self,
               interval = iv,
               sent_Bps = sent_rate,
               recv_Bps = recv_rate,
               sent_ema_Bps = sent_ema self1,
               recv_ema_Bps = recv_ema self1,
               ema_enabled = use_ema self,
               ema_alpha = alpha self,
               total_sent_B = s - sent (start_counters self),
               total_recv_B = r - recv (start_counters self),
               uptime = now - start_time self,
               timestamp = now\<rparr>))"
proof -
  have "read_counters (iface self) (eth0 s r) = Inr \<lparr>sent = s, recv = r\<rparr>"
    using assms by (simp add: eval_read_eth0)
  from sample_read [OF this, of now] show ?thesis by simp
qed

lemma samples_prev_keeps:
  assumes "samples self inputs = Inr out" and "i < length inputs"
  shows "iface (if i = 0 then self else fst (out ! (i - 1))) = iface self
       \<and> use_ema (if i = 0 then self else fst (out ! (i - 1))) = use_ema self
       \<and> alpha (if i = 0 then self else fst (out ! (i - 1))) = alpha self
       \<and> start_time (if i = 0 then self else fst (out ! (i - 1))) = start_time self
       \<and> start_counters (if i = 0 then self else fst (out ! (i - 1))) = start_counters self"
proof (cases i)
  case 0
  then show ?thesis by simp
next
  case (Suc j)
  with assms samples_length [OF assms(1)] have "out ! j \<in> set out" by simp
  then have "(fst (out ! j), snd (out ! j)) \<in> set out" by simp
  from samples_keeps [OF assms(1) this] Suc show ?thesis by simp
qed

lemma samples_eth0_3:
  assumes "iface self = ''eth0''"
  shows "\<exists>out. samples self [(t1, eth0 s1 r1), (t2, eth0 s2 r2), (t3, eth0 s3 r3)] = Inr out"
proof -
  obtain c1 d1 where 1: "sample self t1 (eth0 s1 r1) = Inr (c1, d1)"
    using sample_eth0 [OF assms, of t1 s1 r1] by (simp add: Let_def)
  from sample_keeps [OF 1] assms have "iface c1 = ''eth0''" by simp
  then obtain c2 d2 where 2: "sample c1 t2 (eth0 s2 r2) = Inr (c2, d2)"
    using sample_eth0 [of c1 t2 s2 r2] by (simp add: Let_def)
  from sample_keeps [OF 2] \<open>iface c1 = ''eth0''\<close> have "iface c2 = ''eth0''" by simp
  then obtain c3 d3 where 3: "sample c2 t3 (eth0 s3 r3) = Inr (c3, d3)"
    using sample_eth0 [of c2 t3 s3 r3] by (simp add: Let_def)
  from 1 2 3 show ?thesis by simp
qed

lemma sample_ema_state:
  assumes "sample self now cs = Inr (self', d)"
  shows "sent_ema self' = sent_ema_Bps d \<and> recv_ema self' = recv_ema_Bps d
       \<and> (use_ema self \<longrightarrow> ema_initialized self')"
proof -
  from sample_step [OF assms] obtain current where
    e: "self' = (update_ema self (sent_Bps d) (recv_Bps d))\<lparr>prev_counters := current, last_time := now\<rparr>"
    and s: "sent_ema_Bps d = sent_ema self'" "recv_ema_Bps d = recv_ema self'"
    by blast
  from e have "use_ema self \<longrightarrow> ema_initialized self'"
    by (simp add: update_ema_def)
  with s show ?thesis by simp
qed

lemma sample_ema_first:
  assumes "sample self now cs = Inr (self', d)" and "use_ema self" and "\<not> ema_initialized self"
  shows "sent_ema_Bps d = sent_Bps d \<and> recv_ema_Bps d = recv_Bps d"
proof -
  from sample_step [OF assms(1)] obtain current where
    e: "self' = (update_ema self (sent_Bps d) (recv_Bps d))\<lparr>prev_counters := current, last_time := now\<rparr>"
    and s: "sent_ema_Bps d = sent_ema self'" "recv_ema_Bps d = recv_ema self'"
    by blast
  from e assms(2,3) have "sent_ema self' = sent_Bps d \<and> recv_ema self' = recv_Bps d"
    by (simp add: update_ema_def)
  with s show ?thesis by simp
qed

lemma sample_ema_next:
  assumes "sample self now cs = Inr (self', d)" and "use_ema self" and "ema_initialized self"
  shows "sent_ema_Bps d = alpha self * sent_Bps d + (1 - alpha self) * sent_ema self
       \<and> recv_ema_Bps d = alpha self * recv_Bps d + (1 - alpha self) * recv_ema self"
proof -
  from sample_step [OF assms(1)] obtain current where
    e: "self' = (update_ema self (sent_Bps d) (recv_Bps d))\<lparr>prev_counters := current, last_time := now\<rparr>"
    and s: "sent_ema_Bps d = sent_ema self'" "recv_ema_Bps d = recv_ema self'"
    by blast
  from e assms(2,3)
  have "sent_ema self' = alpha self * sent_Bps d + (1 - alpha self) * sent_ema self
      \<and> recv_ema self' = alpha self * recv_Bps d + (1 - alpha self) * recv_ema self"
    by (simp add: update_ema_def)
  with s show ?thesis by simp
qed

lemma read_counters_missing:
  "ifc \<noteq> ''all'' \<Longrightarrow> map_of cs ifc = None \<Longrightarrow> read_counters ifc cs = Inl ValueError"
  by (simp add: read_counters_def)

lemma read_counters_all:
  "read_counters ''all'' cs =
     Inr \<lparr>sent = sum_list (map (\<lambda>(n, c). bytes_sent c) cs),
          recv = sum_list (map (\<lambda>(n, c). bytes_recv c) cs)\<rparr>"
  by (simp add: read_counters_def)

lemma sample_all:
  assumes "iface self = ''all''"
  shows "\<exists>self' d. sample self now cs = Inr (self', d)"
proof -
  from assms have "read_counters (iface self) cs =
     Inr \<lparr>sent = sum_list (map (\<lambda>(n, c). bytes_sent c) cs),
          recv = sum_list (map (\<lambda>(n, c). bytes_recv c) cs)\<rparr>"
    by (simp add: read_counters_all)
  from sample_read [OF this, of now] show ?thesis
    by (simp add: Let_def)
qed

lemma samples_all:
  "iface self = ''all'' \<Longrightarrow> \<exists>out. samples self inputs = Inr out"
proof (induction inputs arbitrary: self)
  case Nil
  then show ?case by simp
next
  case (Cons x inputs)
  obtain now cs where x: "x = (now, cs)" by (cases x)
  from sample_all [OF Cons.prems, of now cs] obtain self' d where
    s: "sample self now cs = Inr (self', d)" by blast
  from sample_keeps [OF s] Cons.prems have "iface self' = ''all''" by simp
  from Cons.IH [OF this] obtain out where "samples self' inputs = Inr out" by blast
  with s x show ?case by simp
qed

lemma main_loop_all:
  "iface self = ''all'' \<Longrightarrow> snd (main_loop self iterations i inputs) \<noteq> Raised e"
proof (induction inputs arbitrary: self i)
  case Nil
  then show ?case by simp
next
  case (Cons x inputs)
  obtain now cs where x: "x = (now, cs)" by (cases x)
  from sample_all [OF Cons.prems, of now cs] obtain self' d where
    s: "sample self now cs = Inr (self', d)" by blast
  from sample_keeps [OF s] Cons.prems have "iface self' = ''all''" by simp
  from Cons.IH [OF this, of "i + 1"] s x show ?case
    by (auto simp: Let_def split: prod.splits)
qed

lemma main_loop_prefix:
  assumes "samples c pre = Inr out"
      and "case iterations of None \<Rightarrow> True | Some n \<Rightarrow> i + int (length pre) < n"
  shows "main_loop c iterations i (pre @ rest) =
     (case main_loop (if out = [] then c else fst (last out)) iterations (i + int (length pre)) rest of
        (ds, r) \<Rightarrow> (map snd out @ ds, r))"
  using assms
proof (induction pre arbitrary: c out i)
  case Nil
  then show ?case by (simp split: prod.splits)
next
  case (Cons x pre)
  obtain now cs where x: "x = (now, cs)" by (cases x)
  from Cons.prems(1) x obtain c' d' out' where
    s: "sample c now cs = Inr (c', d')" and
    r: "samples c' pre = Inr out'" and
    o: "out = (c', d') # out'"
    by (auto split: sum.splits prod.splits)
  from Cons.prems(2) have b: "case iterations of None \<Rightarrow> True | Some n \<Rightarrow> (i + 1) + int (length pre) < n"
    by (simp split: option.splits)
  from Cons.prems(2) have nb: "\<not> (case iterations of None \<Rightarrow> False | Some n \<Rightarrow> i + 1 \<ge> n)"
    by (simp split: option.splits)
  have l: "(if out = [] then c else fst (last out)) = (if out' = [] then c' else fst (last out'))"
    using o by simp
  have ii: "i + int (length (x # pre)) = (i + 1) + int (length pre)" by simp
  show ?case
    unfolding l ii using Cons.IH [OF r b, of ] s x o nb
    by (simp add: Let_def split: prod.splits)
qed

lemma str_nat_digit: "n < 10 \<Longrightarrow> str_nat n = [digit_char n]"
  by (simp add: str_nat.simps)

lemma str_nat_step: "10 \<le> n \<Longrightarrow> str_nat n = str_nat (n div 10) @ [digit_char (n mod 10)]"
  by (subst str_nat.simps) simp

lemma humanize_loop_stop:
  "\<not> (value \<ge> 1024 \<and> idx < 4) \<Longrightarrow> humanize_loop value idx = (value, idx)"
  by (subst humanize_loop.simps) (auto simp: units_def)

lemma humanize_loop_step:
  "value \<ge> 1024 \<Longrightarrow> idx < 4 \<Longrightarrow> humanize_loop value idx = humanize_loop (value / 1024) (idx + 1)"
  by (subst humanize_loop.simps) (auto simp: units_def)

lemma humanize_loop_spec:
  "idx \<le> 4 \<Longrightarrow>
     \<exists>k. idx + k \<le> 4 \<and> humanize_loop value idx = (value / 1024 ^ k, idx + k)
        \<and> (\<forall>j<k. value / 1024 ^ j \<ge> 1024)
        \<and> (idx + k < 4 \<longrightarrow> value / 1024 ^ k < 1024)"
proof (induction "value" idx rule: humanize_loop.induct)
  case (1 "value" idx)
  show ?case
  proof (cases "value \<ge> 1024 \<and> idx < 4")
    case False
    then have "humanize_loop value idx = (value, idx)"
      by (rule humanize_loop_stop)
    with False "1.prems" show ?thesis
      by (intro exI [of _ 0]) auto
  next
    case True
    then have c: "value \<ge> 1024 \<and> int idx < int (length units) - 1"
      by (simp add: units_def)
    from True have "idx + 1 \<le> 4" by simp
    from "1.IH" [OF c this] obtain k where
      k: "idx + 1 + k \<le> 4"
      and l: "humanize_loop (value / 1024) (idx + 1) = (value / 1024 / 1024 ^ k, idx + 1 + k)"
      and g: "\<forall>j<k. value / 1024 / 1024 ^ j \<ge> 1024"
      and s: "idx + 1 + k < 4 \<longrightarrow> value / 1024 / 1024 ^ k < 1024"
      by blast
    have p: "value / 1024 / 1024 ^ j = value / 1024 ^ Suc j" for j
      by simp
    have "\<forall>j<Suc k. value / 1024 ^ j \<ge> 1024"
    proof (intro allI impI)
      fix j assume "j < Suc k"
      show "value / 1024 ^ j \<ge> 1024"
      proof (cases j)
        case 0
        with True show ?thesis by simp
      next
        case (Suc j')
        with \<open>j < Suc k\<close> g have "value / 1024 / 1024 ^ j' \<ge> 1024" by simp
        with Suc show ?thesis by (simp only: p)
      qed
    qed
    moreover from l True have "humanize_loop value idx = (value / 1024 ^ Suc k, idx + Suc k)"
      by (simp only: p humanize_loop_step) simp
    moreover from s have "idx + Suc k < 4 \<longrightarrow> value / 1024 ^ Suc k < 1024"
      by (simp only: p) simp
    moreover from k have "idx + Suc k \<le> 4" by simp
    ultimately show ?thesis by (intro exI [of _ "Suc k"]) blast
  qed
qed

lemma round_half_even_near: "\<bar>y - of_int (round_half_even y)\<bar> \<le> 1 / 2"
  unfolding round_half_even_def Let_def by (auto; linarith)

lemma round_half_even_nonneg: "0 \<le> y \<Longrightarrow> 0 \<le> round_half_even y"
  unfolding round_half_even_def Let_def by auto

lemma format_1f_shape:
  "\<exists>q t. t < 10
     \<and> format_1f value = (if value < 0 then ''-'' else '''') @ str_nat q @ ''.'' @ [digit_char t]
     \<and> \<bar>\<bar>value\<bar> * 10 - real (10 * q + t)\<bar> \<le> 1 / 2"
proof -
  let ?r = "nat (round_half_even (\<bar>value\<bar> * 10))"
  have "0 \<le> round_half_even (\<bar>value\<bar> * 10)"
    by (rule round_half_even_nonneg) simp
  then have "real ?r = of_int (round_half_even (\<bar>value\<bar> * 10))"
    by simp
  with round_half_even_near [of "\<bar>value\<bar> * 10"]
  have "\<bar>\<bar>value\<bar> * 10 - real ?r\<bar> \<le> 1 / 2" by simp
  moreover have "?r = 10 * (?r div 10) + ?r mod 10" by simp
  ultimately have "\<bar>\<bar>value\<bar> * 10 - real (10 * (?r div 10) + ?r mod 10)\<bar> \<le> 1 / 2"
    by simp
  moreover have "?r mod 10 < 10" by simp
  moreover have "format_1f value =
      (if value < 0 then ''-'' else '''') @ str_nat (?r div 10) @ ''.'' @ [digit_char (?r mod 10)]"
    by (simp add: format_1f_def Let_def)
  ultimately show ?thesis by blast
qed

lemma humanize_bytes_ex1: "humanize_bytes 1536 False = Inr ''1.5 KB''"
  by (simp add: humanize_bytes_def humanize_loop_step humanize_loop_stop units_def format_1f_def
      round_half_even_def str_nat_digit digit_char_def)

lemma humanize_bytes_ex2: "humanize_bytes 1048576 True = Inr ''1.0 MB/s''"
  by (simp add: humanize_bytes_def humanize_loop_step humanize_loop_stop units_def format_1f_def
      round_half_even_def str_nat_digit digit_char_def)

lemma humanize_bytes_ex3: "humanize_bytes 500 False = Inr ''500.0 B''"
  by (simp add: humanize_bytes_def humanize_loop_step humanize_loop_stop units_def format_1f_def
      round_half_even_def str_nat_digit str_nat_step digit_char_def)

lemma exp_hi_step: "2 \<le> x \<Longrightarrow> exp_hi x = exp_hi (x / 2) + 1"
  by (subst exp_hi.simps) simp

lemma exp_hi_stop: "x < 2 \<Longrightarrow> exp_hi x = 0"
  by (subst exp_hi.simps) simp

lemma exp_lo_step: "0 < x \<Longrightarrow> x < 1 \<Longrightarrow> exp_lo x = exp_lo (2 * x) - 1"
  by (subst exp_lo.simps) simp

lemma exp_lo_stop: "1 \<le> x \<Longrightarrow> exp_lo x = 0"
  by (subst exp_lo.simps) simp

lemmas float_eval = float_round_def expo_def pow2_def round_half_even_def
  exp_hi_step exp_hi_stop exp_lo_step exp_lo_stop Let_def

lemma round_half_even_le: "y \<le> of_int n \<Longrightarrow> round_half_even y \<le> n"
proof -
  assume a: "y \<le> of_int n"
  have f: "\<lfloor>y\<rfloor> \<le> n" using a by (simp add: floor_le_iff)
  have g: "\<lfloor>y\<rfloor> + 1 \<le> n" if "of_int \<lfloor>y\<rfloor> < y"
  proof -
    from that a have "real_of_int \<lfloor>y\<rfloor> < of_int n" by linarith
    then show ?thesis by simp
  qed
  show ?thesis
    unfolding round_half_even_def Let_def using f g by auto
qed

lemma pow2_pos: "0 < pow2 e"
  by (simp add: pow2_def)

lemma exp_hi_le: "x < 2 ^ Suc n \<Longrightarrow> exp_hi x \<le> int n"
proof (induction n arbitrary: x)
  case 0
  then show ?case by (simp add: exp_hi_stop)
next
  case (Suc n)
  show ?case
  proof (cases "2 \<le> x")
    case False
    then show ?thesis by (simp add: exp_hi_stop)
  next
    case True
    from Suc.prems have "x / 2 < 2 ^ Suc n" by simp
    from Suc.IH [OF this] True show ?thesis by (simp add: exp_hi_step)
  qed
qed

lemma exp_lo_le: "exp_lo x \<le> 0"
proof (induction x rule: exp_lo.induct)
  case (1 x)
  show ?case
  proof (cases "0 < x \<and> x < 1")
    case True
    with "1.IH" show ?thesis by (simp add: exp_lo_step)
  next
    case False
    then have "exp_lo x = 0" by (subst exp_lo.simps) (simp only: if_False)
    then show ?thesis by simp
  qed
qed

lemma expo_le: "x < 2 ^ Suc n \<Longrightarrow> expo x \<le> int n"
  using exp_hi_le [of x n] exp_lo_le [of x] by (simp add: expo_def)

lemma float_round_nonneg: "0 \<le> x \<Longrightarrow> 0 \<le> float_round x"
  using round_half_even_nonneg [of "\<bar>x\<bar> / pow2 (expo \<bar>x\<bar> - 52)"] pow2_pos [of "expo \<bar>x\<bar> - 52"]
  by (simp add: float_round_def Let_def)

lemma float_round_nonpos: "x \<le> 0 \<Longrightarrow> float_round x \<le> 0"
proof -
  assume "x \<le> 0"
  moreover have "0 \<le> real_of_int (round_half_even (\<bar>x\<bar> / pow2 (expo \<bar>x\<bar> - 52))) * pow2 (expo \<bar>x\<bar> - 52)"
    using round_half_even_nonneg [of "\<bar>x\<bar> / pow2 (expo \<bar>x\<bar> - 52)"] pow2_pos [of "expo \<bar>x\<bar> - 52"]
    by simp
  ultimately show ?thesis
    by (simp add: float_round_def Let_def sgn_if mult.assoc)
qed

lemma float_round_le_50: "x \<le> 50 \<Longrightarrow> float_round x \<le> 50"
proof (cases "x \<le> 0")
  case True
  from float_round_nonpos [OF this] show ?thesis by simp
next
  case False
  assume le: "x \<le> 50"
  from False have pos: "0 < x" by simp
  define k where "k = nat (52 - expo x)"
  from le have "x < 2 ^ Suc 5" by simp
  from expo_le [OF this] have e: "expo x - 52 < 0" by simp
  then have u: "pow2 (expo x - 52) = 1 / 2 ^ k"
    by (simp add: pow2_def k_def)
  have "x * 2 ^ k \<le> 50 * 2 ^ k" using le by simp
  also have "\<dots> = real_of_int (50 * 2 ^ k)" by simp
  finally have "round_half_even (x * 2 ^ k) \<le> 50 * 2 ^ k"
    by (rule round_half_even_le)
  then have "real_of_int (round_half_even (x * 2 ^ k)) \<le> real_of_int (50 * 2 ^ k)"
    by (simp only: of_int_le_iff)
  then have "real_of_int (round_half_even (x * 2 ^ k)) / 2 ^ k \<le> 50"
    by (simp add: field_simps)
  with pos u show ?thesis
    by (simp add: float_round_def Let_def)
qed


lemma py_int_le: "x \<le> of_int n \<Longrightarrow> py_int x \<le> n"
  unfolding py_int_def by (auto simp: floor_le_iff ceiling_le_iff)

lemma py_int_floor: "0 \<le> x \<Longrightarrow> py_int x = \<lfloor>x\<rfloor>"
  by (simp add: py_int_def)

lemma py_int_nonneg: "0 \<le> x \<Longrightarrow> 0 \<le> py_int x"
  by (simp add: py_int_def)

lemma bar_ratio_ok:
  "max_value \<noteq> 0 \<Longrightarrow> bar_ratio value max_value = Inr (min (float_round (value / max_value)) 1)"
  by (simp add: bar_ratio_def float_truediv_def py_min_eq)

lemma bar_filled_ok:
  "max_value \<noteq> 0 \<Longrightarrow>
     bar_filled self value max_value =
       Inr (py_int (float_mul (min (float_round (value / max_value)) 1) (of_int (bar_width self))))"
  by (simp add: bar_filled_def bar_ratio_ok)

lemma bar_ok:
  "max_value \<noteq> 0 \<Longrightarrow>
     bar self value max_value =
       Inr (let filled = py_int (float_mul (min (float_round (value / max_value)) 1) (of_int (bar_width self)))
            in replicate (nat filled) full_block @ replicate (nat (bar_width self - filled)) space)"
  by (simp add: bar_def bar_filled_ok str_mul_def Let_def)

lemma bar_facts:
  assumes "1 \<le> max_value" and "bar_width self = 50" and "bar self value max_value = Inr b"
  shows "\<exists>ratio filled.
           bar_ratio value max_value = Inr ratio
         \<and> ratio = min (float_round (value / max_value)) 1
         \<and> bar_filled self value max_value = Inr filled
         \<and> filled = py_int (float_mul ratio 50)
         \<and> filled \<le> 50
         \<and> b = replicate (nat filled) full_block @ replicate (nat (50 - filled)) space
         \<and> (0 \<le> value \<longrightarrow> filled = \<lfloor>float_mul ratio 50\<rfloor> \<and> 0 \<le> filled \<and> length b = 50)"
proof -
  define ratio where "ratio = min (float_round (value / max_value)) 1"
  define filled where "filled = py_int (float_mul ratio 50)"
  from assms(1) have nz: "max_value \<noteq> 0" and pos: "0 < max_value" by simp_all
  have r: "bar_ratio value max_value = Inr ratio"
    using nz by (simp add: bar_ratio_ok ratio_def)
  have f: "bar_filled self value max_value = Inr filled"
    using nz assms(2) by (simp add: bar_filled_ok ratio_def filled_def)
  have b: "b = replicate (nat filled) full_block @ replicate (nat (50 - filled)) space"
    using assms(3) nz assms(2) by (simp add: bar_ok ratio_def filled_def Let_def)
  have "ratio * 50 \<le> 50" by (simp add: ratio_def)
  then have "float_mul ratio 50 \<le> of_int 50"
    unfolding float_mul_def by (simp add: float_round_le_50)
  then have le: "filled \<le> 50"
    unfolding filled_def by (rule py_int_le)
  have nn: "filled = \<lfloor>float_mul ratio 50\<rfloor> \<and> 0 \<le> filled \<and> length b = 50" if "0 \<le> value"
  proof -
    from that pos have "0 \<le> value / max_value" by simp
    then have "0 \<le> float_round (value / max_value)" by (rule float_round_nonneg)
    then have "0 \<le> ratio * 50" by (simp add: ratio_def)
    then have p: "0 \<le> float_mul ratio 50"
      unfolding float_mul_def by (rule float_round_nonneg)
    then have "filled = \<lfloor>float_mul ratio 50\<rfloor>" and z: "0 \<le> filled"
      by (simp_all add: filled_def py_int_floor py_int_nonneg)
    moreover from z le b have "length b = 50" by simp
    ultimately show ?thesis by simp
  qed
  from r f b le nn ratio_def filled_def show ?thesis
    by (intro exI [of _ ratio] exI [of _ filled]) blast
qed

lemma render_ok:
  assumes "1 \<le> max_sent self" and "1 \<le> max_recv self"
  shows "\<exists>out_bar in_bar. render self d =
     Inr (self\<lparr>max_sent := max (max_sent self) (fst (bar_metrics self d)),
               max_recv := max (max_recv self) (snd (bar_metrics self d))\<rparr>, out_bar, in_bar)"
proof -
  obtain bs br where m: "bar_metrics self d = (bs, br)" by (cases "bar_metrics self d")
  from assms have "max (max_sent self) bs \<noteq> 0" and "max (max_recv self) br \<noteq> 0"
    by (simp_all add: max_def)
  with m show ?thesis
    by (simp add: render_def py_max_eq bar_ok)
qed

lemma render_step:
  assumes "render self d = Inr (self', out_bar, in_bar)"
  shows "self' = self\<lparr>max_sent := max (max_sent self) (fst (bar_metrics self d)),
                       max_recv := max (max_recv self) (snd (bar_metrics self d))\<rparr>
       \<and> bar self' (fst (bar_metrics self d)) (max_sent self') = Inr out_bar
       \<and> bar self' (snd (bar_metrics self d)) (max_recv self') = Inr in_bar"
proof -
  obtain bs br where m: "bar_metrics self d = (bs, br)" by (cases "bar_metrics self d")
  from assms m show ?thesis
    by (auto simp: render_def py_max_eq Let_def split: sum.splits)
qed

lemma renders_length: "renders self ds = Inr rs \<Longrightarrow> length rs = length ds"
  by (induction ds arbitrary: self rs) (auto split: sum.splits prod.splits)

lemma renders_nth:
  "renders self ds = Inr rs \<Longrightarrow> i < length ds \<Longrightarrow>
     render (if i = 0 then self else fst (rs ! (i - 1))) (ds ! i) = Inr (rs ! i)"
proof (induction ds arbitrary: self rs i)
  case Nil
  then show ?case by simp
next
  case (Cons d ds)
  from Cons.prems(1) obtain self' ob ib rs' where
    s: "render self d = Inr (self', ob, ib)" and
    r: "renders self' ds = Inr rs'" and
    o: "rs = (self', ob, ib) # rs'"
    by (auto split: sum.splits prod.splits)
  show ?case
  proof (cases i)
    case 0
    then show ?thesis using s o by simp
  next
    case (Suc j)
    with Cons.prems(2) have j: "j < length ds" by simp
    from Cons.IH [OF r j] show ?thesis
      using Suc o by (cases j) simp_all
  qed
qed

lemma renders_total:
  "1 \<le> max_sent self \<Longrightarrow> 1 \<le> max_recv self \<Longrightarrow> \<exists>rs. renders self ds = Inr rs"
proof (induction ds arbitrary: self)
  case Nil
  then show ?case by simp
next
  case (Cons d ds)
  let ?s = "self\<lparr>max_sent := max (max_sent self) (fst (bar_metrics self d)),
               max_recv := max (max_recv self) (snd (bar_metrics self d))\<rparr>"
  from render_ok [OF Cons.prems, of d] obtain ob ib where
    r: "render self d = Inr (?s, ob, ib)" by blast
  from Cons.prems have "1 \<le> max_sent ?s" and "1 \<le> max_recv ?s"
    by (simp_all add: max_def)
  from Cons.IH [OF this] obtain rs where "renders ?s ds = Inr rs" by blast
  with r show ?case by simp
qed

lemma renders_invariant:
  "renders self ds = Inr rs \<Longrightarrow> 1 \<le> max_sent self \<Longrightarrow> 1 \<le> max_recv self \<Longrightarrow>
     (r, ob, ib) \<in> set rs \<Longrightarrow> 1 \<le> max_sent r \<and> 1 \<le> max_recv r \<and> bar_width r = bar_width self"
proof (induction ds arbitrary: self rs)
  case Nil
  then show ?case by simp
next
  case (Cons d ds)
  from Cons.prems(1) obtain self' ob' ib' rs' where
    s: "render self d = Inr (self', ob', ib')" and
    t: "renders self' ds = Inr rs'" and
    o: "rs = (self', ob', ib') # rs'"
    by (auto split: sum.splits prod.splits)
  from render_step [OF s, THEN conjunct1] Cons.prems(2,3)
  have i: "1 \<le> max_sent self'" "1 \<le> max_recv self'" "bar_width self' = bar_width self"
    by (simp_all add: max_def)
  from Cons.prems(4) o consider "r = self'" | "(r, ob, ib) \<in> set rs'" by auto
  then show ?case
  proof cases
    case 1
    with i show ?thesis by simp
  next
    case 2
    from Cons.IH [OF t i(1,2) 2] i(3) show ?thesis by simp
  qed
qed

lemma ansi_init_fields:
  "view (ansi_init v) = v" "max_sent (ansi_init v) = 1" "max_recv (ansi_init v) = 1"
  "bar_width (ansi_init v) = 50"
  by (simp_all add: ansi_init_def)

lemma bar_metrics_rates: "bar_metrics self (rates x) = (x, x)"
  by (simp add: bar_metrics_def)

text \<open>One tick of a run that started from a new renderer.\<close>

lemma renders_tick:
  assumes rs: "renders (ansi_init v) ds = Inr rs" and i: "i < length ds"
    and p: "p = (if i = 0 then ansi_init v else fst (rs ! (i - 1)))"
    and t: "rs ! i = (r, out_bar, in_bar)" and m: "bar_metrics p (ds ! i) = (bs, br)"
  shows "render p (ds ! i) = Inr (r, out_bar, in_bar)
       \<and> max_sent r = max (max_sent p) bs \<and> max_recv r = max (max_recv p) br
       \<and> 1 \<le> max_sent r \<and> 1 \<le> max_recv r \<and> bar_width r = 50
       \<and> bar r bs (max_sent r) = Inr out_bar \<and> bar r br (max_recv r) = Inr in_bar"
proof -
  have inv: "1 \<le> max_sent (ansi_init v)" "1 \<le> max_recv (ansi_init v)"
    by (simp_all add: ansi_init_fields)
  from renders_nth [OF rs i] p t have e: "render p (ds ! i) = Inr (r, out_bar, in_bar)"
    by simp
  note st = render_step [OF e]
  from st [THEN conjunct1] m
  have rr: "r = p\<lparr>max_sent := max (max_sent p) bs, max_recv := max (max_recv p) br\<rparr>"
    by simp
  then have u: "max_sent r = max (max_sent p) bs" "max_recv r = max (max_recv p) br"
    by simp_all
  from st [THEN conjunct2, THEN conjunct1] m have b1: "bar r bs (max_sent r) = Inr out_bar"
    by simp
  from st [THEN conjunct2, THEN conjunct2] m have b2: "bar r br (max_recv r) = Inr in_bar"
    by simp
  note b = b1 b2
  from i renders_length [OF rs] have "rs ! i \<in> set rs" by simp
  with t have "(r, out_bar, in_bar) \<in> set rs" by simp
  from renders_invariant [OF rs inv this]
  have "1 \<le> max_sent r" "1 \<le> max_recv r" "bar_width r = 50"
    by (simp_all add: ansi_init_fields)
  with e u b show ?thesis by simp
qed

lemma render_rates:
  assumes "1 \<le> max_sent self" and "1 \<le> max_recv self"
  shows "render self (rates x) =
     Inr (self\<lparr>max_sent := max (max_sent self) x, max_recv := max (max_recv self) x\<rparr>,
          (let filled = py_int (float_mul (min (float_round (x / max (max_sent self) x)) 1)
                                  (of_int (bar_width self)))
           in replicate (nat filled) full_block @ replicate (nat (bar_width self - filled)) space),
          (let filled = py_int (float_mul (min (float_round (x / max (max_recv self) x)) 1)
                                  (of_int (bar_width self)))
           in replicate (nat filled) full_block @ replicate (nat (bar_width self - filled)) space))"
proof -
  from assms have "max (max_sent self) x \<noteq> 0" and "max (max_recv self) x \<noteq> 0"
    by (simp_all add: max_def)
  then show ?thesis
    by (simp add: render_def bar_metrics_rates py_max_eq bar_ok)
qed

lemma filled_examples:
  "py_int (float_mul (min (float_round (10 / 10)) 1) 50) = 50"
  "py_int (float_mul (min (float_round (50 / 50)) 1) 50) = 50"
  "py_int (float_mul (min (float_round (5 / 50)) 1) 50) = 5"
  "py_int (float_mul (min (float_round (80 / 80)) 1) 50) = 50"
  "py_int (float_mul (min (float_round (20 / 80)) 1) 50) = 12"
  "py_int (float_mul (min (float_round (29 / 50)) 1) 50) = 28"
  by (simp_all add: float_mul_def float_eval py_int_def)

lemma renders_example:
  "\<exists>rs. renders (ansi_init v) (map rates [10, 50, 5, 80, 20]) = Inr rs
      \<and> map (max_sent \<circ> fst) rs = [10, 50, 50, 80, 80]
      \<and> map (max_recv \<circ> fst) rs = [10, 50, 50, 80, 80]
      \<and> map (fst \<circ> snd) rs =
           [replicate 50 full_block, replicate 50 full_block,
            replicate 5 full_block @ replicate 45 space,
            replicate 50 full_block, replicate 12 full_block @ replicate 38 space]
      \<and> map (snd \<circ> snd) rs = map (fst \<circ> snd) rs"
proof -
  let ?r0 = "ansi_init v"
  let ?r1 = "?r0\<lparr>max_sent := 10, max_recv := 10\<rparr>"
  let ?r2 = "?r0\<lparr>max_sent := 50, max_recv := 50\<rparr>"
  let ?r4 = "?r0\<lparr>max_sent := 80, max_recv := 80\<rparr>"
  let ?b50 = "replicate 50 full_block"
  let ?b5 = "replicate 5 full_block @ replicate 45 space"
  let ?b12 = "replicate 12 full_block @ replicate 38 space"
  have 1: "render ?r0 (rates 10) = Inr (?r1, ?b50, ?b50)"
    using filled_examples(1) by (simp add: render_rates ansi_init_fields)
  have 2: "render ?r1 (rates 50) = Inr (?r2, ?b50, ?b50)"
    using filled_examples(2) by (simp add: render_rates ansi_init_fields)
  have 3: "render ?r2 (rates 5) = Inr (?r2, ?b5, ?b5)"
    using filled_examples(3) by (simp add: render_rates ansi_init_fields)
  have 4: "render ?r2 (rates 80) = Inr (?r4, ?b50, ?b50)"
    using filled_examples(4) by (simp add: render_rates ansi_init_fields)
  have 5: "render ?r4 (rates 20) = Inr (?r4, ?b12, ?b12)"
    using filled_examples(5) by (simp add: render_rates ansi_init_fields)
  have "renders ?r0 (map rates [10, 50, 5, 80, 20]) =
      Inr [(?r1, ?b50, ?b50), (?r2, ?b50, ?b50), (?r2, ?b5, ?b5), (?r4, ?b50, ?b50), (?r4, ?b12, ?b12)]"
    by (simp add: 1 2 3 4 5)
  then show ?thesis by simp
qed

subsection \<open>Claims\<close>

text \<open>
  C7. With \<open>use_ema\<close> false, on every tick of a run the smoothed rates of the
  dictionary returned equal its instantaneous rates, for both directions, and the
  collector's \<open>sent_ema\<close> and \<open>recv_ema\<close> after the tick hold the instantaneous
  rates as well.
\<close>

theorem ema_disabled_pass_through:
  assumes "\<not> use_ema self" and "samples self inputs = Inr out"
  shows "\<forall>(self', d) \<in> set out.
           sent_ema_Bps d = sent_Bps d \<and> recv_ema_Bps d = recv_Bps d
         \<and> sent_ema self' = sent_Bps d \<and> recv_ema self' = recv_Bps d"
  using assms
proof (induction inputs arbitrary: self out)
  case Nil
  then show ?case by simp
next
  case (Cons x inputs)
  obtain now cs where x: "x = (now, cs)" by (cases x)
  from Cons.prems(2) x obtain self' d' out' where
    s: "sample self now cs = Inr (self', d')" and
    r: "samples self' inputs = Inr out'" and
    o: "out = (self', d') # out'"
    by (auto split: sum.splits prod.splits)
  from sample_keeps [OF s] Cons.prems(1) have u: "\<not> use_ema self'" by simp
  from sample_step [OF s] Cons.prems(1)
  have "sent_ema_Bps d' = sent_Bps d' \<and> recv_ema_Bps d' = recv_Bps d'
      \<and> sent_ema self' = sent_Bps d' \<and> recv_ema self' = recv_Bps d'"
    by (auto simp: update_ema_def)
  with Cons.IH [OF u r] o show ?case by simp
qed

theorem ema_disabled_pass_through_witness:
  "\<exists>self out.
     init ''eth0'' False (1 / 5) [(''eth0'', \<lparr>bytes_sent = 0, bytes_recv = 0\<rparr>)] 0
          [(''eth0'', \<lparr>bytes_sent = 0, bytes_recv = 0\<rparr>)] = Inr self
   \<and> \<not> use_ema self
   \<and> samples self [(1, [(''eth0'', \<lparr>bytes_sent = 1000, bytes_recv = 2000\<rparr>)])] = Inr out
   \<and> length out = 1
   \<and> sent_Bps (snd (out ! 0)) = 1000 \<and> recv_Bps (snd (out ! 0)) = 2000
   \<and> sent_ema_Bps (snd (out ! 0)) = 1000 \<and> recv_ema_Bps (snd (out ! 0)) = 2000
   \<and> sent_ema (fst (out ! 0)) = 1000 \<and> recv_ema (fst (out ! 0)) = 2000"
proof -
  define self where "self = \<lparr>iface = ''eth0'', use_ema = False, alpha = 1 / 5,
     start_time = 0, last_time = 0, start_counters = \<lparr>sent = 0, recv = 0\<rparr>,
     prev_counters = \<lparr>sent = 0, recv = 0\<rparr>, sent_ema = 0, recv_ema = 0,
     ema_initialized = False\<rparr>"
  have i: "init ''eth0'' False (1 / 5) [(''eth0'', \<lparr>bytes_sent = 0, bytes_recv = 0\<rparr>)] 0
          [(''eth0'', \<lparr>bytes_sent = 0, bytes_recv = 0\<rparr>)] = Inr self"
    by (simp add: init_def eval_read_eth0 self_def)
  have u: "\<not> use_ema self" by (simp add: self_def)
  have "iface self = ''eth0''" by (simp add: self_def)
  then have "read_counters (iface self) [(''eth0'', \<lparr>bytes_sent = 1000, bytes_recv = 2000\<rparr>)]
      = Inr \<lparr>sent = 1000, recv = 2000\<rparr>"
    by (simp add: eval_read_eth0)
  from sample_read [OF this, of 1]
  obtain self' d where s: "sample self 1 [(''eth0'', \<lparr>bytes_sent = 1000, bytes_recv = 2000\<rparr>)] = Inr (self', d)"
    and d: "sent_Bps d = 1000" "recv_Bps d = 2000"
    by (simp add: Let_def self_def)
  then have r: "samples self [(1, [(''eth0'', \<lparr>bytes_sent = 1000, bytes_recv = 2000\<rparr>)])] = Inr [(self', d)]"
    by simp
  from ema_disabled_pass_through [OF u r] d
  have "sent_ema_Bps d = 1000 \<and> recv_ema_Bps d = 2000 \<and> sent_ema self' = 1000 \<and> recv_ema self' = 2000"
    by simp
  with i u r d show ?thesis by simp
qed

text \<open>
  C9. A call of \<^verbatim>\<open>sample\<close> that returns leaves \<open>start_counters\<close>,
  \<open>start_time\<close>, \<open>iface\<close>, \<open>use_ema\<close> and \<open>alpha\<close> as they were, and sets
  \<open>prev_counters\<close> to the counters it has read and \<open>last_time\<close> to its clock
  reading.
\<close>

theorem sample_frame:
  assumes "sample self now cs = Inr (self', d)"
  shows "start_counters self' = start_counters self \<and> start_time self' = start_time self
       \<and> iface self' = iface self \<and> use_ema self' = use_ema self \<and> alpha self' = alpha self
       \<and> read_counters (iface self) cs = Inr (prev_counters self') \<and> last_time self' = now"
proof -
  from sample_step [OF assms] obtain current where
    r: "read_counters (iface self) cs = Inr current" and
    e: "self' = (update_ema self (sent_Bps d) (recv_Bps d))\<lparr>prev_counters := current, last_time := now\<rparr>"
    by blast
  from e have "prev_counters self' = current" and "last_time self' = now"
    by simp_all
  with r sample_keeps [OF assms] show ?thesis by simp
qed

theorem sample_frame_witness:
  "\<exists>self self' d.
     init ''eth0'' True (1 / 5) (eth0 0 0) 7 (eth0 100 200) = Inr self
   \<and> sample self 9 (eth0 1100 2200) = Inr (self', d)
   \<and> start_counters self' = \<lparr>sent = 100, recv = 200\<rparr> \<and> start_time self' = 7
   \<and> iface self' = ''eth0'' \<and> use_ema self' \<and> alpha self' = 1 / 5
   \<and> prev_counters self' = \<lparr>sent = 1100, recv = 2200\<rparr> \<and> last_time self' = 9"
proof -
  obtain self where i: "init ''eth0'' True (1 / 5) (eth0 0 0) 7 (eth0 100 200) = Inr self"
    and f: "iface self = ''eth0''" "start_counters self = \<lparr>sent = 100, recv = 200\<rparr>"
      "start_time self = 7" "use_ema self" "alpha self = 1 / 5"
    by (simp add: init_eth0)
  obtain self' d where s: "sample self 9 (eth0 1100 2200) = Inr (self', d)"
    using sample_eth0 [OF f(1), of 9 1100 2200] by (simp add: Let_def)
  from sample_frame [OF s] f have "start_counters self' = \<lparr>sent = 100, recv = 200\<rparr> \<and> start_time self' = 7
   \<and> iface self' = ''eth0'' \<and> use_ema self' \<and> alpha self' = 1 / 5
   \<and> prev_counters self' = \<lparr>sent = 1100, recv = 2200\<rparr> \<and> last_time self' = 9"
    by (simp add: eval_read_eth0)
  with i s show ?thesis by blast
qed

text \<open>
  C2. \<^verbatim>\<open>sample\<close> never raises \<^verbatim>\<open>ZeroDivisionError\<close>. When it returns, the
  \<open>interval\<close> of its dictionary is the larger of \<open>now - last_time\<close> and \<open>0.01\<close>:
  exactly \<open>0.01\<close> when the difference is smaller (zero and negative included),
  never below \<open>0.01\<close>, and it is the divisor of both rates.
\<close>

theorem interval_floor:
  "sample self now cs \<noteq> Inl ZeroDivisionError
   \<and> (\<forall>self' d. sample self now cs = Inr (self', d) \<longrightarrow>
        interval d = max (now - last_time self) (1 / 100)
      \<and> (now - last_time self < 1 / 100 \<longrightarrow> interval d = 1 / 100)
      \<and> 1 / 100 \<le> interval d
      \<and> (\<exists>current. read_counters (iface self) cs = Inr current
            \<and> sent_Bps d = of_int (sent current - sent (prev_counters self)) / interval d
            \<and> recv_Bps d = of_int (recv current - recv (prev_counters self)) / interval d))"
proof -
  have "sample self now cs \<noteq> Inl ZeroDivisionError"
  proof (cases "read_counters (iface self) cs")
    case (Inl e)
    then show ?thesis by (simp add: sample_lost)
  next
    case (Inr current)
    then show ?thesis by (simp add: sample_read)
  qed
  moreover have "interval d = max (now - last_time self) (1 / 100)
      \<and> (now - last_time self < 1 / 100 \<longrightarrow> interval d = 1 / 100)
      \<and> 1 / 100 \<le> interval d
      \<and> (\<exists>current. read_counters (iface self) cs = Inr current
            \<and> sent_Bps d = of_int (sent current - sent (prev_counters self)) / interval d
            \<and> recv_Bps d = of_int (recv current - recv (prev_counters self)) / interval d)"
    if "sample self now cs = Inr (self', d)" for self' d
  proof -
    from sample_step [OF that] obtain current where
      r: "read_counters (iface self) cs = Inr current" and
      i: "interval d = max (now - last_time self) (1 / 100)" and
      s: "sent_Bps d = of_int (sent current - sent (prev_counters self)) / interval d" and
      v: "recv_Bps d = of_int (recv current - recv (prev_counters self)) / interval d"
      by blast
    from i have "now - last_time self < 1 / 100 \<longrightarrow> interval d = 1 / 100"
      by (simp add: max_def)
    moreover from i have "1 / 100 \<le> interval d"
      by (simp only: max.cobounded2)
    ultimately show ?thesis using r i s v by blast
  qed
  ultimately show ?thesis by blast
qed

theorem interval_floor_witness:
  "\<exists>self self' d.
     init ''eth0'' True (1 / 5) (eth0 0 0) 7 (eth0 100 200) = Inr self
   \<and> sample self (7 + 1 / 1000) (eth0 110 200) = Inr (self', d)
   \<and> (7 + 1 / 1000) - last_time self < 1 / 100
   \<and> interval d = 1 / 100 \<and> sent_Bps d = 1000 \<and> recv_Bps d = 0"
proof -
  obtain self where i: "init ''eth0'' True (1 / 5) (eth0 0 0) 7 (eth0 100 200) = Inr self"
    and f: "iface self = ''eth0''" "last_time self = 7" "prev_counters self = \<lparr>sent = 100, recv = 200\<rparr>"
    by (simp add: init_eth0)
  obtain self' d where s: "sample self (7 + 1 / 1000) (eth0 110 200) = Inr (self', d)"
    using sample_eth0 [OF f(1), of "7 + 1 / 1000" 110 200] by (simp add: Let_def)
  have l: "(7 + 1 / 1000) - last_time self < 1 / 100" using f by simp
  from interval_floor [of self "7 + 1 / 1000" "eth0 110 200"] s l
  obtain current where iv: "interval d = 1 / 100"
    and r: "read_counters (iface self) (eth0 110 200) = Inr current"
    and sb: "sent_Bps d = of_int (sent current - sent (prev_counters self)) / interval d"
    and rb: "recv_Bps d = of_int (recv current - recv (prev_counters self)) / interval d"
    by blast
  from r f have c: "current = \<lparr>sent = 110, recv = 200\<rparr>"
    by (simp add: eval_read_eth0)
  have "sent_Bps d = 1000" and "recv_Bps d = 0"
    unfolding sb rb iv c f by simp_all
  with iv have "interval d = 1 / 100 \<and> sent_Bps d = 1000 \<and> recv_Bps d = 0"
    by simp
  with i s l show ?thesis by blast
qed

text \<open>
  C3. In a run of calls of \<^verbatim>\<open>sample\<close> that all return, the totals of every
  dictionary, the last one included, are the counters read by that call minus
  \<open>start_counters\<close> of the collector the run started from, whatever the number of
  calls, the clock readings, the counters read before and the EMA settings.
\<close>

theorem cumulative_totals:
  assumes "samples self inputs = Inr out"
  shows "\<forall>i < length inputs. \<exists>current.
           read_counters (iface self) (snd (inputs ! i)) = Inr current
         \<and> total_sent_B (snd (out ! i)) = sent current - sent (start_counters self)
         \<and> total_recv_B (snd (out ! i)) = recv current - recv (start_counters self)"
proof (intro allI impI)
  fix i assume i: "i < length inputs"
  let ?p = "if i = 0 then self else fst (out ! (i - 1))"
  have "sample ?p (fst (inputs ! i)) (snd (inputs ! i)) = Inr (fst (out ! i), snd (out ! i))"
    using samples_nth [OF assms i] by simp
  from sample_step [OF this] samples_prev_keeps [OF assms i]
  show "\<exists>current.
           read_counters (iface self) (snd (inputs ! i)) = Inr current
         \<and> total_sent_B (snd (out ! i)) = sent current - sent (start_counters self)
         \<and> total_recv_B (snd (out ! i)) = recv current - recv (start_counters self)"
    by auto
qed

theorem cumulative_totals_witness:
  "\<exists>self out.
     init ''eth0'' True (1 / 5) (eth0 0 0) 0 (eth0 100 200) = Inr self
   \<and> samples self [(1, eth0 1100 2200), (1, eth0 50 60), (5 / 2, eth0 4100 5200)] = Inr out
   \<and> map (total_sent_B \<circ> snd) out = [1000, - 50, 4000]
   \<and> map (total_recv_B \<circ> snd) out = [2000, - 140, 5000]"
proof -
  obtain self where i: "init ''eth0'' True (1 / 5) (eth0 0 0) 0 (eth0 100 200) = Inr self"
    and f: "iface self = ''eth0''" "start_counters self = \<lparr>sent = 100, recv = 200\<rparr>"
    by (simp add: init_eth0)
  let ?inputs = "[(1, eth0 1100 2200), (1, eth0 50 60), (5 / 2, eth0 4100 5200)]"
  from samples_eth0_3 [OF f(1)] obtain out where r: "samples self ?inputs = Inr out"
    by blast
  from samples_length [OF r] obtain a b c where o: "out = [a, b, c]"
    by (auto simp: length_Suc_conv)
  from cumulative_totals [OF r, rule_format, of 0] cumulative_totals [OF r, rule_format, of 1]
    cumulative_totals [OF r, rule_format, of 2] f o
  have "map (total_sent_B \<circ> snd) out = [1000, - 50, 4000]
      \<and> map (total_recv_B \<circ> snd) out = [2000, - 140, 5000]"
    by (simp add: eval_read_eth0)
  with i r show ?thesis
    by (intro exI [of _ self] exI [of _ out]) simp
qed

text \<open>
  C1. With \<open>use_ema\<close> true, in a run of calls of \<^verbatim>\<open>sample\<close> on a collector whose
  EMA is not yet initialised (as \<^verbatim>\<open>__init__\<close> leaves it), the smoothed rate of the
  first dictionary equals its instantaneous rate, and that of every later one is
  \<open>alpha\<close> times its instantaneous rate plus \<open>1 - alpha\<close> times the smoothed rate of
  the dictionary before it, for \<open>sent\<close> and for \<open>recv\<close>. This holds for every
  \<open>alpha\<close>, so for those in \<open>(0, 1]\<close>.
\<close>

theorem ema_recurrence:
  assumes "use_ema self" and "\<not> ema_initialized self" and "samples self inputs = Inr out"
  shows "(out \<noteq> [] \<longrightarrow>
            sent_ema_Bps (snd (out ! 0)) = sent_Bps (snd (out ! 0))
          \<and> recv_ema_Bps (snd (out ! 0)) = recv_Bps (snd (out ! 0)))
       \<and> (\<forall>i. 0 < i \<and> i < length out \<longrightarrow>
            sent_ema_Bps (snd (out ! i)) =
              alpha self * sent_Bps (snd (out ! i)) + (1 - alpha self) * sent_ema_Bps (snd (out ! (i - 1)))
          \<and> recv_ema_Bps (snd (out ! i)) =
              alpha self * recv_Bps (snd (out ! i)) + (1 - alpha self) * recv_ema_Bps (snd (out ! (i - 1))))"
proof (intro conjI allI impI)
  assume "out \<noteq> []"
  then have 0: "0 < length inputs" using samples_length [OF assms(3)] by (cases inputs) auto
  from samples_nth [OF assms(3) 0]
  have "sample self (fst (inputs ! 0)) (snd (inputs ! 0)) = Inr (fst (out ! 0), snd (out ! 0))"
    by simp
  from sample_ema_first [OF this assms(1,2)]
  show "sent_ema_Bps (snd (out ! 0)) = sent_Bps (snd (out ! 0))"
    and "recv_ema_Bps (snd (out ! 0)) = recv_Bps (snd (out ! 0))"
    by simp_all
next
  fix i assume "0 < i \<and> i < length out"
  then have p: "0 < i" and i: "i < length inputs" and j: "i - 1 < length inputs"
    using samples_length [OF assms(3)] by auto
  let ?q = "if i - 1 = 0 then self else fst (out ! (i - 1 - 1))"
  let ?p = "fst (out ! (i - 1))"
  have q: "sample ?q (fst (inputs ! (i - 1))) (snd (inputs ! (i - 1))) = Inr (?p, snd (out ! (i - 1)))"
    using samples_nth [OF assms(3) j] by simp
  from samples_prev_keeps [OF assms(3) j] assms(1) have "use_ema ?q" by simp
  with sample_ema_state [OF q]
  have e: "sent_ema ?p = sent_ema_Bps (snd (out ! (i - 1)))"
          "recv_ema ?p = recv_ema_Bps (snd (out ! (i - 1)))" "ema_initialized ?p"
    by simp_all
  from samples_prev_keeps [OF assms(3) i] p assms(1)
  have k: "use_ema ?p" "alpha ?p = alpha self" by simp_all
  have "sample ?p (fst (inputs ! i)) (snd (inputs ! i)) = Inr (fst (out ! i), snd (out ! i))"
    using samples_nth [OF assms(3) i] p by simp
  from sample_ema_next [OF this k(1) e(3)] e k
  show "sent_ema_Bps (snd (out ! i)) =
              alpha self * sent_Bps (snd (out ! i)) + (1 - alpha self) * sent_ema_Bps (snd (out ! (i - 1)))"
    and "recv_ema_Bps (snd (out ! i)) =
              alpha self * recv_Bps (snd (out ! i)) + (1 - alpha self) * recv_ema_Bps (snd (out ! (i - 1)))"
    by simp_all
qed

theorem ema_recurrence_witness:
  "\<exists>self out.
     init ''eth0'' True (1 / 5) (eth0 0 0) 0 (eth0 0 0) = Inr self
   \<and> use_ema self \<and> \<not> ema_initialized self \<and> 0 < alpha self \<and> alpha self \<le> 1
   \<and> samples self [(1, eth0 1000 2000), (2, eth0 3000 2500), (3, eth0 3500 6500)] = Inr out
   \<and> map (sent_Bps \<circ> snd) out = [1000, 2000, 500]
   \<and> map (sent_ema_Bps \<circ> snd) out = [1000, 1200, 1060]
   \<and> map (recv_Bps \<circ> snd) out = [2000, 500, 4000]
   \<and> map (recv_ema_Bps \<circ> snd) out = [2000, 1700, 2160]"
proof -
  define self where "self = \<lparr>iface = ''eth0'', use_ema = True, alpha = 1 / 5,
     start_time = 0, last_time = 0, start_counters = \<lparr>sent = 0, recv = 0\<rparr>,
     prev_counters = \<lparr>sent = 0, recv = 0\<rparr>, sent_ema = 0, recv_ema = 0,
     ema_initialized = False\<rparr>"
  have i: "init ''eth0'' True (1 / 5) (eth0 0 0) 0 (eth0 0 0) = Inr self"
    by (simp add: init_eth0 self_def)
  have u: "use_ema self" and n: "\<not> ema_initialized self" and a: "alpha self = 1 / 5"
    by (simp_all add: self_def)
  let ?inputs = "[(1, eth0 1000 2000), (2, eth0 3000 2500), (3, eth0 3500 6500)]"
  obtain out where r: "samples self ?inputs = Inr out"
    and s: "map (sent_Bps \<circ> snd) out = [1000, 2000, 500]"
    and v: "map (recv_Bps \<circ> snd) out = [2000, 500, 4000]"
    by (simp add: self_def sample_eth0 Let_def update_ema_def)
  from s obtain x y z where o: "out = [x, y, z]" by auto
  from ema_recurrence [OF u n r] o
  have 0: "sent_ema_Bps (snd x) = sent_Bps (snd x)" "recv_ema_Bps (snd x) = recv_Bps (snd x)"
    by simp_all
  from ema_recurrence [OF u n r, THEN conjunct2, rule_format, of 1] o a
  have 1: "sent_ema_Bps (snd y) = 1 / 5 * sent_Bps (snd y) + (1 - 1 / 5) * sent_ema_Bps (snd x)"
          "recv_ema_Bps (snd y) = 1 / 5 * recv_Bps (snd y) + (1 - 1 / 5) * recv_ema_Bps (snd x)"
    by simp_all
  from ema_recurrence [OF u n r, THEN conjunct2, rule_format, of 2] o a
  have 2: "sent_ema_Bps (snd z) = 1 / 5 * sent_Bps (snd z) + (1 - 1 / 5) * sent_ema_Bps (snd y)"
          "recv_ema_Bps (snd z) = 1 / 5 * recv_Bps (snd z) + (1 - 1 / 5) * recv_ema_Bps (snd y)"
    by simp_all
  from s v o have q: "sent_Bps (snd x) = 1000" "sent_Bps (snd y) = 2000" "sent_Bps (snd z) = 500"
    "recv_Bps (snd x) = 2000" "recv_Bps (snd y) = 500" "recv_Bps (snd z) = 4000"
    by simp_all
  have "map (sent_ema_Bps \<circ> snd) out = [1000, 1200, 1060]"
    and "map (recv_ema_Bps \<circ> snd) out = [2000, 1700, 2160]"
    unfolding o by (simp_all add: 0 1 2 q)
  with i u n a r s v show ?thesis
    by (intro exI [of _ self] exI [of _ out]) simp
qed

text \<open>
  C4. Let the collector name an interface (its \<open>iface\<close> is not \<^verbatim>\<open>"all"\<close>), let the
  calls of \<^verbatim>\<open>sample\<close> for the ticks \<open>pre\<close> return, with the iteration bound not
  yet reached, and let the counters of the next tick lack that interface. Then that
  call of \<^verbatim>\<open>sample\<close> raises \<^verbatim>\<open>SystemExit(1)\<close>, and the loop of \<^verbatim>\<open>main\<close> ends
  with it: the renderer has received the dictionaries of \<open>pre\<close> and nothing for the
  failing tick, and the ticks after it (\<open>rest\<close>) do not happen.
\<close>

theorem interface_lost_fatal:
  assumes "samples c pre = Inr out"
      and "case iterations of None \<Rightarrow> True | Some n \<Rightarrow> i + int (length pre) < n"
      and "iface c \<noteq> ''all''" and "map_of cs (iface c) = None"
  shows "sample (if out = [] then c else fst (last out)) now cs = Inl (SystemExit 1)
       \<and> main_loop c iterations i (pre @ (now, cs) # rest) = (map snd out, Raised (SystemExit 1))"
proof -
  let ?p = "if out = [] then c else fst (last out)"
  have "iface ?p = iface c"
  proof (cases "out = []")
    case True
    then show ?thesis by simp
  next
    case False
    then have "(fst (last out), snd (last out)) \<in> set out" by simp
    from samples_keeps [OF assms(1) this] False show ?thesis by simp
  qed
  with assms(3,4) have "read_counters (iface ?p) cs = Inl ValueError"
    by (simp add: read_counters_missing)
  then have s: "sample ?p now cs = Inl (SystemExit 1)"
    by (rule sample_lost)
  then have "main_loop ?p iterations (i + int (length pre)) ((now, cs) # rest) = ([], Raised (SystemExit 1))"
    by simp
  with main_loop_prefix [OF assms(1,2), of "(now, cs) # rest"] s show ?thesis
    by simp
qed

theorem interface_lost_fatal_witness:
  "\<exists>self out.
     init ''eth0'' True (1 / 5) (eth0 0 0) 0 (eth0 0 0) = Inr self
   \<and> samples self [(1, eth0 1000 2000)] = Inr out
   \<and> length out = 1
   \<and> iface self \<noteq> ''all''
   \<and> map_of [(''lo'', \<lparr>bytes_sent = 7, bytes_recv = 7\<rparr>)] (iface self) = None
   \<and> sample (fst (last out)) 2 [(''lo'', \<lparr>bytes_sent = 7, bytes_recv = 7\<rparr>)] = Inl (SystemExit 1)
   \<and> main_loop self None 0
        ([(1, eth0 1000 2000)] @ (2, [(''lo'', \<lparr>bytes_sent = 7, bytes_recv = 7\<rparr>)]) # [(3, eth0 5000 5000)])
        = (map snd out, Raised (SystemExit 1))"
proof -
  obtain self where i: "init ''eth0'' True (1 / 5) (eth0 0 0) 0 (eth0 0 0) = Inr self"
    and f: "iface self = ''eth0''"
    by (simp add: init_eth0)
  obtain self' d where s: "sample self 1 (eth0 1000 2000) = Inr (self', d)"
    using sample_eth0 [OF f, of 1 1000 2000] by (simp add: Let_def)
  then have r: "samples self [(1, eth0 1000 2000)] = Inr [(self', d)]"
    by simp
  have b: "case None of None \<Rightarrow> True | Some n \<Rightarrow> 0 + int (length [(1::real, eth0 1000 2000)]) < n"
    by simp
  have a: "iface self \<noteq> ''all''" using f by simp
  have m: "map_of [(''lo'', \<lparr>bytes_sent = 7, bytes_recv = 7\<rparr>)] (iface self) = None"
    using f by simp
  from interface_lost_fatal [OF r b a m, of 2 "[(3, eth0 5000 5000)]"] i r a m
  show ?thesis
    by (intro exI [of _ self] exI [of _ "[(self', d)]"]) simp
qed

text \<open>
  C10. With the selector \<^verbatim>\<open>"all"\<close>, \<^verbatim>\<open>_read_counters\<close> returns for every
  dictionary of interfaces the sums of the two counters over its entries, which are
  \<open>0\<close> and \<open>0\<close> for the empty one, and never raises. So a call of
  \<^verbatim>\<open>sample\<close> on a collector with that selector returns, whatever the counters are,
  every run of such calls returns, and the loop of \<^verbatim>\<open>main\<close> never ends with an
  exception.
\<close>

theorem all_selector_never_lost:
  "read_counters ''all'' cs =
     Inr \<lparr>sent = sum_list (map (\<lambda>(n, c). bytes_sent c) cs),
          recv = sum_list (map (\<lambda>(n, c). bytes_recv c) cs)\<rparr>
   \<and> read_counters ''all'' [] = Inr \<lparr>sent = 0, recv = 0\<rparr>
   \<and> (iface self = ''all'' \<longrightarrow>
        (\<exists>self' d. sample self now cs = Inr (self', d))
      \<and> (\<exists>out. samples self inputs = Inr out)
      \<and> (\<forall>e. snd (main_loop self iterations i inputs) \<noteq> Raised e))"
  using sample_all [of self now cs] samples_all [of self inputs] main_loop_all [of self iterations i inputs]
  by (simp add: read_counters_all)

theorem all_selector_never_lost_witness:
  "\<exists>self self' d.
     init ''all'' True (1 / 5) (eth0 5 6) 0 (eth0 5 6) = Inr self
   \<and> iface self = ''all''
   \<and> read_counters ''all'' [(''eth0'', \<lparr>bytes_sent = 5, bytes_recv = 6\<rparr>), (''lo'', \<lparr>bytes_sent = 1, bytes_recv = 2\<rparr>)]
        = Inr \<lparr>sent = 6, recv = 8\<rparr>
   \<and> sample self 1 [] = Inr (self', d)"
proof -
  obtain self where i: "init ''all'' True (1 / 5) (eth0 5 6) 0 (eth0 5 6) = Inr self"
    and f: "iface self = ''all''"
    by (simp add: init_def read_counters_all)
  from all_selector_never_lost [of "[(''eth0'', \<lparr>bytes_sent = 5, bytes_recv = 6\<rparr>), (''lo'', \<lparr>bytes_sent = 1, bytes_recv = 2\<rparr>)]" self 1 "[]" None 0]
  have c: "read_counters ''all'' [(''eth0'', \<lparr>bytes_sent = 5, bytes_recv = 6\<rparr>), (''lo'', \<lparr>bytes_sent = 1, bytes_recv = 2\<rparr>)]
        = Inr \<lparr>sent = 6, recv = 8\<rparr>"
    by simp
  from all_selector_never_lost [of "[]" self 1 "[]" None 0] f
  obtain self' d where "sample self 1 [] = Inr (self', d)"
    by blast
  with i f c show ?thesis by blast
qed

text \<open>
  C8. \<^verbatim>\<open>__init__\<close> raises \<^verbatim>\<open>RuntimeError\<close> when the system reports no interface
  at all, and raises (\<^verbatim>\<open>ValueError\<close>, from \<^verbatim>\<open>_read_counters\<close>, unless the
  \<^verbatim>\<open>RuntimeError\<close> comes first) when the selector names an interface that is not
  among the counters read. When it returns, the counters were read and are both
  \<open>start_counters\<close> and \<open>prev_counters\<close>. When it raises, \<^verbatim>\<open>main\<close> ends with an
  exception before the renderer has received any dictionary.
\<close>

theorem construction_fails:
  "(cs0 = [] \<longrightarrow> init ifc ema a cs0 now cs1 = Inl RuntimeError)
   \<and> (ifc \<noteq> ''all'' \<and> map_of cs1 ifc = None \<longrightarrow>
        init ifc ema a cs0 now cs1 = Inl (if cs0 = [] then RuntimeError else ValueError))
   \<and> (\<forall>self. init ifc ema a cs0 now cs1 = Inr self \<longrightarrow>
        cs0 \<noteq> [] \<and> read_counters ifc cs1 = Inr (start_counters self)
      \<and> prev_counters self = start_counters self)
   \<and> (\<forall>e. init ifc (\<not> no_ema) a cs0 now cs1 = Inl e \<longrightarrow>
        main ifc no_ema a once count cs0 now cs1 ticks =
          ([], Raised (if 0 < a \<and> a \<le> 1 then e else SystemExit 1)))"
proof (intro conjI allI impI)
  assume "cs0 = []"
  then show "init ifc ema a cs0 now cs1 = Inl RuntimeError"
    by (simp add: init_def)
next
  assume "ifc \<noteq> ''all'' \<and> map_of cs1 ifc = None"
  then have "read_counters ifc cs1 = Inl ValueError"
    by (simp add: read_counters_missing)
  then show "init ifc ema a cs0 now cs1 = Inl (if cs0 = [] then RuntimeError else ValueError)"
    by (simp add: init_def)
next
  fix self assume i: "init ifc ema a cs0 now cs1 = Inr self"
  then show "cs0 \<noteq> []"
    by (auto simp: init_def)
  from i show "read_counters ifc cs1 = Inr (start_counters self)"
    by (auto simp: init_def split: if_splits sum.splits)
  from i show "prev_counters self = start_counters self"
    by (auto simp: init_def split: if_splits sum.splits)
next
  fix e assume "init ifc (\<not> no_ema) a cs0 now cs1 = Inl e"
  then show "main ifc no_ema a once count cs0 now cs1 ticks =
          ([], Raised (if 0 < a \<and> a \<le> 1 then e else SystemExit 1))"
    by (simp add: main_def)
qed

theorem construction_fails_witness:
  "init ''eth0'' True (1 / 5) [] 0 [] = Inl RuntimeError
   \<and> init ''wlan0'' True (1 / 5) (eth0 0 0) 0 (eth0 0 0) = Inl ValueError
   \<and> main ''wlan0'' False (1 / 5) False None (eth0 0 0) 0 (eth0 0 0) [(1, eth0 10 10)]
        = ([], Raised ValueError)
   \<and> (\<exists>self. init ''eth0'' True (1 / 5) (eth0 0 0) 0 (eth0 3 4) = Inr self
        \<and> start_counters self = \<lparr>sent = 3, recv = 4\<rparr>
        \<and> prev_counters self = \<lparr>sent = 3, recv = 4\<rparr>)"
proof -
  from construction_fails [of "[]" "''eth0''" True "1 / 5" 0 "[]"]
  have 1: "init ''eth0'' True (1 / 5) [] 0 [] = Inl RuntimeError"
    by simp
  from construction_fails [of "eth0 0 0" "''wlan0''" True "1 / 5" 0 "eth0 0 0" False False None "[(1, eth0 10 10)]"]
  have 2: "init ''wlan0'' True (1 / 5) (eth0 0 0) 0 (eth0 0 0) = Inl ValueError"
    and 3: "main ''wlan0'' False (1 / 5) False None (eth0 0 0) 0 (eth0 0 0) [(1, eth0 10 10)]
        = ([], Raised ValueError)"
    by simp_all
  obtain self where i: "init ''eth0'' True (1 / 5) (eth0 0 0) 0 (eth0 3 4) = Inr self"
    by (simp add: init_eth0)
  from construction_fails [of "eth0 0 0" "''eth0''" True "1 / 5" 0 "eth0 3 4"] i
  have "start_counters self = \<lparr>sent = 3, recv = 4\<rparr> \<and> prev_counters self = \<lparr>sent = 3, recv = 4\<rparr>"
    by (simp add: eval_read_eth0)
  with 1 2 3 i show ?thesis by blast
qed

text \<open>
  C6. \<^verbatim>\<open>humanize_bytes\<close> returns a string for every number and flag. The string
  is the number divided \<open>k\<close> times by \<open>1024\<close>, printed with one decimal, a space,
  the \<open>k\<close>-th of the units \<^verbatim>\<open>B, KB, MB, GB, TB\<close>, and \<^verbatim>\<open>/s\<close> exactly when the flag
  is set; here \<open>k \<le> 4\<close>, every division was made on a value of at least \<open>1024\<close>,
  and the value printed is below \<open>1024\<close> unless the unit is \<^verbatim>\<open>TB\<close>. For a number
  below \<open>1024\<close>, so for zero and every negative number, no division is made and the
  unit is \<^verbatim>\<open>B\<close>. The decimal printed is a sign, digits, a point and one digit, within
  half a tenth of the number. The three examples of the specification hold.
\<close>

theorem humanize_bytes_spec:
  "(\<exists>k\<le>4. humanize_bytes value rate =
             Inr (format_1f (value / 1024 ^ k) @ '' '' @ units ! k @ (if rate then ''/s'' else ''''))
          \<and> (\<forall>j<k. value / 1024 ^ j \<ge> 1024)
          \<and> (k < 4 \<longrightarrow> value / 1024 ^ k < 1024))
   \<and> (value < 1024 \<longrightarrow>
        humanize_bytes value rate = Inr (format_1f value @ '' B'' @ (if rate then ''/s'' else '''')))
   \<and> (\<exists>q t. t < 10
          \<and> format_1f value = (if value < 0 then ''-'' else '''') @ str_nat q @ ''.'' @ [digit_char t]
          \<and> \<bar>\<bar>value\<bar> * 10 - real (10 * q + t)\<bar> \<le> 1 / 2)
   \<and> humanize_bytes 1536 False = Inr ''1.5 KB''
   \<and> humanize_bytes 1048576 True = Inr ''1.0 MB/s''
   \<and> humanize_bytes 500 False = Inr ''500.0 B''"
proof -
  from humanize_loop_spec [of 0 "value"] obtain k where
    k: "k \<le> 4" and l: "humanize_loop value 0 = (value / 1024 ^ k, k)"
    and g: "\<forall>j<k. value / 1024 ^ j \<ge> 1024" and s: "k < 4 \<longrightarrow> value / 1024 ^ k < 1024"
    by auto
  from k have "k < length units" by (simp add: units_def)
  with l have "humanize_bytes value rate =
             Inr (format_1f (value / 1024 ^ k) @ '' '' @ units ! k @ (if rate then ''/s'' else ''''))"
    by (simp add: humanize_bytes_def)
  with k g s have 1: "\<exists>k\<le>4. humanize_bytes value rate =
             Inr (format_1f (value / 1024 ^ k) @ '' '' @ units ! k @ (if rate then ''/s'' else ''''))
          \<and> (\<forall>j<k. value / 1024 ^ j \<ge> 1024)
          \<and> (k < 4 \<longrightarrow> value / 1024 ^ k < 1024)"
    by blast
  have 2: "humanize_bytes value rate = Inr (format_1f value @ '' B'' @ (if rate then ''/s'' else ''''))"
    if "value < 1024"
    using that by (simp add: humanize_bytes_def humanize_loop_stop units_def)
  from 1 2 format_1f_shape [of "value"] humanize_bytes_ex1 humanize_bytes_ex2 humanize_bytes_ex3
  show ?thesis by blast
qed

theorem humanize_bytes_spec_witness:
  "(- 2048 :: real) < 1024
   \<and> humanize_bytes (- 2048) True = Inr ''-2048.0 B/s''
   \<and> humanize_bytes 0 False = Inr ''0.0 B''"
proof -
  have f: "format_1f (- 2048) = ''-2048.0''" "format_1f 0 = ''0.0''"
    by (simp_all add: format_1f_def round_half_even_def str_nat_digit str_nat_step digit_char_def)
  from humanize_bytes_spec [of "- 2048" True] humanize_bytes_spec [of 0 False]
  show ?thesis by (simp add: f)
qed

text \<open>
  C5, as claimed, fails where it says that the number of filled cells is the floor of
  \<open>ratio * 50\<close>: \<^verbatim>\<open>int\<close> rounds toward zero. A counter that falls by one byte over
  100 seconds gives the rate \<open>-0.01\<close>. Against the ceiling \<open>1\<close> the ratio is the
  double \<open>-0.01\<close> and its product with \<open>50\<close> is the double \<open>-0.5\<close>; \<^verbatim>\<open>_bar\<close>
  computes \<open>0\<close> filled cells, where the floor is \<open>-1\<close>, and \<^verbatim>\<open>render\<close> prints
  \<open>50\<close> blanks, where the floor would give \<open>51\<close>.
\<close>

theorem dashboard_floor_counterexample:
  "sent_Bps (snd (projr (sample (projr (init ''eth0'' False (1 / 5) (eth0 1 0) 0 (eth0 1 0))) 100 (eth0 0 0))))
     = - 1 / 100
   \<and> bar_ratio (- 1 / 100) 1 = Inr (float_round (- 1 / 100))
   \<and> float_mul (float_round (- 1 / 100)) 50 = - 1 / 2
   \<and> bar_filled (ansi_init ''raw'') (- 1 / 100) 1 = Inr 0
   \<and> \<lfloor>float_mul (float_round (- 1 / 100)) 50\<rfloor> = - 1
   \<and> bar_filled (ansi_init ''raw'') (- 1 / 100) 1 \<noteq> Inr \<lfloor>float_mul (float_round (- 1 / 100)) 50\<rfloor>
   \<and> render (ansi_init ''raw'') (rates (- 1 / 100))
        = Inr (ansi_init ''raw'', replicate 50 space, replicate 50 space)"
proof -
  have s: "sent_Bps (snd (projr (sample (projr (init ''eth0'' False (1 / 5) (eth0 1 0) 0 (eth0 1 0))) 100 (eth0 0 0))))
     = - 1 / 100"
    by (simp add: init_eth0 sample_eth0 Let_def)
  have r: "bar_ratio (- 1 / 100) 1 = Inr (float_round (- 1 / 100))"
    by (simp add: bar_ratio_ok float_eval)
  have m: "float_mul (float_round (- 1 / 100)) 50 = - 1 / 2"
    by (simp add: float_mul_def float_eval)
  have c: "\<lceil>- (1 / 2) :: real\<rceil> = 0"
    by (rule ceiling_unique) simp_all
  have l: "float_round (- 1 / 100) \<le> 1"
    by (simp add: float_eval)
  then have f: "bar_filled (ansi_init ''raw'') (- 1 / 100) 1 = Inr 0"
    using m c by (simp add: bar_filled_ok ansi_init_fields py_int_def min_def)
  have "\<lfloor>- 1 / 2 :: real\<rfloor> = - 1"
    by (rule floor_unique) simp_all
  then have fl: "\<lfloor>float_mul (float_round (- 1 / 100)) 50\<rfloor> = - 1"
    by (simp only: m)
  have "ansi_init ''raw''\<lparr>max_sent := 1, max_recv := 1\<rparr> = ansi_init ''raw''"
    by (simp add: ansi_init_def)
  with l m c have d: "render (ansi_init ''raw'') (rates (- 1 / 100))
        = Inr (ansi_init ''raw'', replicate 50 space, replicate 50 space)"
    by (simp add: render_rates ansi_init_fields py_int_def min_def)
  from s r m f fl d show ?thesis by simp
qed

text \<open>
  C5, amended. \<open>max_sent\<close> and \<open>max_recv\<close> of a new \<^verbatim>\<open>AnsiRenderer\<close> are \<open>1\<close>.
  Every call of \<^verbatim>\<open>render\<close> in the renderer's life returns and sets each of them to
  the larger of its value before and the bar metric of the tick, so they never
  decrease and stay at least \<open>1\<close>. The bar the call prints for a direction is drawn
  against the ceiling just updated: the ratio is the smaller of the quotient (a
  double) and \<open>1\<close>, the number of filled cells is \<^verbatim>\<open>int\<close> of the product of the
  ratio and \<open>50\<close> (a double), rounded toward zero, which is at most \<open>50\<close>, and the
  bar is that many full blocks followed by blanks. For a bar metric that is not
  negative the number of filled cells is the floor of the product and the bar is
  \<open>50\<close> cells wide. On the bar metrics \<open>10, 50, 5, 80, 20\<close> the ceilings after the
  ticks are \<open>10, 50, 50, 80, 80\<close>; on the third tick the ratio of \<open>5\<close> against
  \<open>50\<close> is the double written \<^verbatim>\<open>0.10\<close> and the bar has \<open>5\<close> full blocks.
\<close>

theorem dashboard_ceiling:
  "max_sent (ansi_init v) = 1 \<and> max_recv (ansi_init v) = 1
   \<and> (\<exists>rs. renders (ansi_init v) ds = Inr rs \<and> length rs = length ds
         \<and> (\<forall>i<length ds. \<forall>p r out_bar in_bar bs br.
               p = (if i = 0 then ansi_init v else fst (rs ! (i - 1)))
             \<and> rs ! i = (r, out_bar, in_bar) \<and> bar_metrics p (ds ! i) = (bs, br) \<longrightarrow>
               render p (ds ! i) = Inr (r, out_bar, in_bar)
             \<and> max_sent r = max (max_sent p) bs \<and> max_recv r = max (max_recv p) br
             \<and> max_sent p \<le> max_sent r \<and> max_recv p \<le> max_recv r
             \<and> 1 \<le> max_sent r \<and> 1 \<le> max_recv r
             \<and> (\<exists>ratio filled.
                   bar_ratio bs (max_sent r) = Inr ratio
                 \<and> ratio = min (float_round (bs / max_sent r)) 1
                 \<and> bar_filled r bs (max_sent r) = Inr filled
                 \<and> filled = py_int (float_mul ratio 50)
                 \<and> filled \<le> 50
                 \<and> out_bar = replicate (nat filled) full_block @ replicate (nat (50 - filled)) space
                 \<and> (0 \<le> bs \<longrightarrow> filled = \<lfloor>float_mul ratio 50\<rfloor> \<and> 0 \<le> filled \<and> length out_bar = 50))
             \<and> (\<exists>ratio filled.
                   bar_ratio br (max_recv r) = Inr ratio
                 \<and> ratio = min (float_round (br / max_recv r)) 1
                 \<and> bar_filled r br (max_recv r) = Inr filled
                 \<and> filled = py_int (float_mul ratio 50)
                 \<and> filled \<le> 50
                 \<and> in_bar = replicate (nat filled) full_block @ replicate (nat (50 - filled)) space
                 \<and> (0 \<le> br \<longrightarrow> filled = \<lfloor>float_mul ratio 50\<rfloor> \<and> 0 \<le> filled \<and> length in_bar = 50))))
   \<and> (\<exists>rs. renders (ansi_init v) (map rates [10, 50, 5, 80, 20]) = Inr rs
         \<and> map (max_sent \<circ> fst) rs = [10, 50, 50, 80, 80]
         \<and> map (max_recv \<circ> fst) rs = [10, 50, 50, 80, 80]
         \<and> map (fst \<circ> snd) rs =
              [replicate 50 full_block, replicate 50 full_block,
               replicate 5 full_block @ replicate 45 space,
               replicate 50 full_block, replicate 12 full_block @ replicate 38 space]
         \<and> map (snd \<circ> snd) rs = map (fst \<circ> snd) rs)
   \<and> bar_ratio 5 50 = Inr (float_round (1 / 10))
   \<and> bar_filled (ansi_init v) 5 50 = Inr 5"
proof -
  have inv: "1 \<le> max_sent (ansi_init v)" "1 \<le> max_recv (ansi_init v)"
    by (simp_all add: ansi_init_fields)
  from renders_total [OF inv, of ds] obtain rs where rs: "renders (ansi_init v) ds = Inr rs"
    by blast
  from renders_length [OF rs] have len: "length rs = length ds" .
  have tick: "render p (ds ! i) = Inr (r, out_bar, in_bar)
             \<and> max_sent r = max (max_sent p) bs \<and> max_recv r = max (max_recv p) br
             \<and> max_sent p \<le> max_sent r \<and> max_recv p \<le> max_recv r
             \<and> 1 \<le> max_sent r \<and> 1 \<le> max_recv r
             \<and> (\<exists>ratio filled.
                   bar_ratio bs (max_sent r) = Inr ratio
                 \<and> ratio = min (float_round (bs / max_sent r)) 1
                 \<and> bar_filled r bs (max_sent r) = Inr filled
                 \<and> filled = py_int (float_mul ratio 50)
                 \<and> filled \<le> 50
                 \<and> out_bar = replicate (nat filled) full_block @ replicate (nat (50 - filled)) space
                 \<and> (0 \<le> bs \<longrightarrow> filled = \<lfloor>float_mul ratio 50\<rfloor> \<and> 0 \<le> filled \<and> length out_bar = 50))
             \<and> (\<exists>ratio filled.
                   bar_ratio br (max_recv r) = Inr ratio
                 \<and> ratio = min (float_round (br / max_recv r)) 1
                 \<and> bar_filled r br (max_recv r) = Inr filled
                 \<and> filled = py_int (float_mul ratio 50)
                 \<and> filled \<le> 50
                 \<and> in_bar = replicate (nat filled) full_block @ replicate (nat (50 - filled)) space
                 \<and> (0 \<le> br \<longrightarrow> filled = \<lfloor>float_mul ratio 50\<rfloor> \<and> 0 \<le> filled \<and> length in_bar = 50))"
    if h: "i < length ds" "p = (if i = 0 then ansi_init v else fst (rs ! (i - 1)))
             \<and> rs ! i = (r, out_bar, in_bar) \<and> bar_metrics p (ds ! i) = (bs, br)"
    for i p r out_bar in_bar bs br
  proof -
    from h(2) have p: "p = (if i = 0 then ansi_init v else fst (rs ! (i - 1)))"
      and t: "rs ! i = (r, out_bar, in_bar)" and m: "bar_metrics p (ds ! i) = (bs, br)"
      by blast+
    from renders_tick [OF rs h(1) p t m]
    have e: "render p (ds ! i) = Inr (r, out_bar, in_bar)"
      and u: "max_sent r = max (max_sent p) bs" "max_recv r = max (max_recv p) br"
      and g: "1 \<le> max_sent r" "1 \<le> max_recv r" and w: "bar_width r = 50"
      and b: "bar r bs (max_sent r) = Inr out_bar" "bar r br (max_recv r) = Inr in_bar"
      by blast+
    from u have mono: "max_sent p \<le> max_sent r" "max_recv p \<le> max_recv r"
      by simp_all
    from e u mono g bar_facts [OF g(1) w b(1)] bar_facts [OF g(2) w b(2)]
    show ?thesis by (intro conjI)
  qed
  then have "\<forall>i<length ds. \<forall>p r out_bar in_bar bs br.
               p = (if i = 0 then ansi_init v else fst (rs ! (i - 1)))
             \<and> rs ! i = (r, out_bar, in_bar) \<and> bar_metrics p (ds ! i) = (bs, br) \<longrightarrow>
               render p (ds ! i) = Inr (r, out_bar, in_bar)
             \<and> max_sent r = max (max_sent p) bs \<and> max_recv r = max (max_recv p) br
             \<and> max_sent p \<le> max_sent r \<and> max_recv p \<le> max_recv r
             \<and> 1 \<le> max_sent r \<and> 1 \<le> max_recv r
             \<and> (\<exists>ratio filled.
                   bar_ratio bs (max_sent r) = Inr ratio
                 \<and> ratio = min (float_round (bs / max_sent r)) 1
                 \<and> bar_filled r bs (max_sent r) = Inr filled
                 \<and> filled = py_int (float_mul ratio 50)
                 \<and> filled \<le> 50
                 \<and> out_bar = replicate (nat filled) full_block @ replicate (nat (50 - filled)) space
                 \<and> (0 \<le> bs \<longrightarrow> filled = \<lfloor>float_mul ratio 50\<rfloor> \<and> 0 \<le> filled \<and> length out_bar = 50))
             \<and> (\<exists>ratio filled.
                   bar_ratio br (max_recv r) = Inr ratio
                 \<and> ratio = min (float_round (br / max_recv r)) 1
                 \<and> bar_filled r br (max_recv r) = Inr filled
                 \<and> filled = py_int (float_mul ratio 50)
                 \<and> filled \<le> 50
                 \<and> in_bar = replicate (nat filled) full_block @ replicate (nat (50 - filled)) space
                 \<and> (0 \<le> br \<longrightarrow> filled = \<lfloor>float_mul ratio 50\<rfloor> \<and> 0 \<le> filled \<and> length in_bar = 50))"
    by (intro allI impI) (rule tick)
  with rs len have run: "\<exists>rs. renders (ansi_init v) ds = Inr rs \<and> length rs = length ds
         \<and> (\<forall>i<length ds. \<forall>p r out_bar in_bar bs br.
               p = (if i = 0 then ansi_init v else fst (rs ! (i - 1)))
             \<and> rs ! i = (r, out_bar, in_bar) \<and> bar_metrics p (ds ! i) = (bs, br) \<longrightarrow>
               render p (ds ! i) = Inr (r, out_bar, in_bar)
             \<and> max_sent r = max (max_sent p) bs \<and> max_recv r = max (max_recv p) br
             \<and> max_sent p \<le> max_sent r \<and> max_recv p \<le> max_recv r
             \<and> 1 \<le> max_sent r \<and> 1 \<le> max_recv r
             \<and> (\<exists>ratio filled.
                   bar_ratio bs (max_sent r) = Inr ratio
                 \<and> ratio = min (float_round (bs / max_sent r)) 1
                 \<and> bar_filled r bs (max_sent r) = Inr filled
                 \<and> filled = py_int (float_mul ratio 50)
                 \<and> filled \<le> 50
                 \<and> out_bar = replicate (nat filled) full_block @ replicate (nat (50 - filled)) space
                 \<and> (0 \<le> bs \<longrightarrow> filled = \<lfloor>float_mul ratio 50\<rfloor> \<and> 0 \<le> filled \<and> length out_bar = 50))
             \<and> (\<exists>ratio filled.
                   bar_ratio br (max_recv r) = Inr ratio
                 \<and> ratio = min (float_round (br / max_recv r)) 1
                 \<and> bar_filled r br (max_recv r) = Inr filled
                 \<and> filled = py_int (float_mul ratio 50)
                 \<and> filled \<le> 50
                 \<and> in_bar = replicate (nat filled) full_block @ replicate (nat (50 - filled)) space
                 \<and> (0 \<le> br \<longrightarrow> filled = \<lfloor>float_mul ratio 50\<rfloor> \<and> 0 \<le> filled \<and> length in_bar = 50)))"
    by (intro exI [of _ rs] conjI)
  have r5: "bar_ratio 5 50 = Inr (float_round (1 / 10))"
    by (simp add: bar_ratio_ok float_eval)
  have f5: "bar_filled (ansi_init v) 5 50 = Inr 5"
    using filled_examples(3) by (simp add: bar_filled_ok ansi_init_fields)
  show ?thesis
    by (intro conjI) (rule ansi_init_fields run renders_example r5 f5)+
qed

theorem dashboard_ceiling_witness:
  "\<exists>rs. renders (ansi_init ''raw'') [rates 50, rates 29] = Inr rs
     \<and> map (max_sent \<circ> fst) rs = [50, 50]
     \<and> (0::real) \<le> 29
     \<and> bar_filled (fst (rs ! 1)) 29 50 = Inr 28
     \<and> fst (snd (rs ! 1)) = replicate 28 full_block @ replicate 22 space
     \<and> length (fst (snd (rs ! 1))) = 50"
proof -
  let ?ds = "[rates 50, rates 29]"
  note run = dashboard_ceiling [of "''raw''" ?ds, THEN conjunct2, THEN conjunct2, THEN conjunct1]
  then obtain rs where rs: "renders (ansi_init ''raw'') ?ds = Inr rs"
    and len: "length rs = length ?ds"
    and tick: "(\<forall>i<length ?ds. \<forall>p r out_bar in_bar bs br.
               p = (if i = 0 then ansi_init ''raw'' else fst (rs ! (i - 1)))
             \<and> rs ! i = (r, out_bar, in_bar) \<and> bar_metrics p (?ds ! i) = (bs, br) \<longrightarrow>
               render p (?ds ! i) = Inr (r, out_bar, in_bar)
             \<and> max_sent r = max (max_sent p) bs \<and> max_recv r = max (max_recv p) br
             \<and> max_sent p \<le> max_sent r \<and> max_recv p \<le> max_recv r
             \<and> 1 \<le> max_sent r \<and> 1 \<le> max_recv r
             \<and> (\<exists>ratio filled.
                   bar_ratio bs (max_sent r) = Inr ratio
                 \<and> ratio = min (float_round (bs / max_sent r)) 1
                 \<and> bar_filled r bs (max_sent r) = Inr filled
                 \<and> filled = py_int (float_mul ratio 50)
                 \<and> filled \<le> 50
                 \<and> out_bar = replicate (nat filled) full_block @ replicate (nat (50 - filled)) space
                 \<and> (0 \<le> bs \<longrightarrow> filled = \<lfloor>float_mul ratio 50\<rfloor> \<and> 0 \<le> filled \<and> length out_bar = 50))
             \<and> (\<exists>ratio filled.
                   bar_ratio br (max_recv r) = Inr ratio
                 \<and> ratio = min (float_round (br / max_recv r)) 1
                 \<and> bar_filled r br (max_recv r) = Inr filled
                 \<and> filled = py_int (float_mul ratio 50)
                 \<and> filled \<le> 50
                 \<and> in_bar = replicate (nat filled) full_block @ replicate (nat (50 - filled)) space
                 \<and> (0 \<le> br \<longrightarrow> filled = \<lfloor>float_mul ratio 50\<rfloor> \<and> 0 \<le> filled \<and> length in_bar = 50)))"
    by (elim exE conjE)
  from len obtain r0 o0 i0 r1 o1 i1 where o: "rs = [(r0, o0, i0), (r1, o1, i1)]"
    by (auto simp: length_Suc_conv)
  have h0: "ansi_init ''raw'' = (if (0::nat) = 0 then ansi_init ''raw'' else fst (rs ! (0 - 1)))
      \<and> rs ! 0 = (r0, o0, i0) \<and> bar_metrics (ansi_init ''raw'') (?ds ! 0) = (50, 50)"
    by (simp add: o bar_metrics_rates)
  from tick [rule_format, of 0, OF _ h0] have m0: "max_sent r0 = 50"
    by (simp add: ansi_init_fields)
  have h1: "r0 = (if (1::nat) = 0 then ansi_init ''raw'' else fst (rs ! (1 - 1)))
      \<and> rs ! 1 = (r1, o1, i1) \<and> bar_metrics r0 (?ds ! 1) = (29, 29)"
    by (simp add: o bar_metrics_rates)
  note t1 = tick [rule_format, of 1, OF _ h1]
  have lt: "(1::nat) < length ?ds" by simp
  from t1 [OF lt] m0 have m1: "max_sent r1 = 50"
    by simp
  from t1 [OF lt] obtain ratio filled where
    "ratio = min (float_round (29 / max_sent r1)) 1"
    and f: "bar_filled r1 29 (max_sent r1) = Inr filled"
    and "filled = py_int (float_mul ratio 50)"
    and b: "o1 = replicate (nat filled) full_block @ replicate (nat (50 - filled)) space"
    and l: "0 \<le> (29::real) \<longrightarrow> filled = \<lfloor>float_mul ratio 50\<rfloor> \<and> 0 \<le> filled \<and> length o1 = 50"
    by blast
  then have "filled = py_int (float_mul (min (float_round (29 / 50)) 1) 50)"
    by (simp only: m1)
  then have v: "filled = 28"
    by (simp only: filled_examples)
  from l have l1: "length o1 = 50" by simp
  have c2: "map (max_sent \<circ> fst) rs = [50, 50]"
    using o m0 m1 by simp
  have c4: "bar_filled (fst (rs ! 1)) 29 50 = Inr 28"
    using o f v m1 by simp
  have c5: "fst (snd (rs ! 1)) = replicate 28 full_block @ replicate 22 space"
    using o b v by simp
  have c6: "length (fst (snd (rs ! 1))) = 50"
    using o l1 by simp
  from rs c2 c4 c5 c6 show ?thesis
    by (intro exI [of _ rs] conjI) simp_all
qed

end
